theory Spec2Isabelle
  imports Complex_Main "HOL-Library.Char_ord" "HOL-Library.List_Lexorder" "HOL-Library.Sublist"
    "HOL-Library.Multiset"
begin

section \<open>JavaScript values used by the tree engine\<close>

text \<open>
  Strings are lists of code units (\<open>string\<close>), compared code unit by code unit; a value
  that may be \<open>undefined\<close> is an \<open>option\<close>, \<open>None\<close> being \<open>undefined\<close>. A run-time fault
  of the engine (reading a property of \<open>undefined\<close> or \<open>null\<close>) is the error value
  \<open>TypeError\<close>; a function that can fault returns \<open>error + 'a\<close>.
\<close>

datatype error = TypeError

subsection \<open>Numbers\<close>

text \<open>
  A JavaScript number is modelled as an exact real or \<open>NaN\<close>: rounding and the two
  infinities are not represented. Arithmetic propagates \<open>NaN\<close> and every comparison with
  \<open>NaN\<close> is false. A division by zero gives \<open>NaN\<close> here (JavaScript gives \<open>NaN\<close> for
  \<open>0/0\<close> and an infinity otherwise). A number field that was never assigned reads as
  \<open>NaN\<close>, which is what every arithmetic use and comparison of the engine makes of
  \<open>undefined\<close>.
\<close>

datatype number = Num real | NaN

fun num_add :: "number \<Rightarrow> number \<Rightarrow> number" where
  "num_add (Num a) (Num b) = Num (a + b)"
| "num_add _ _ = NaN"

fun num_sub :: "number \<Rightarrow> number \<Rightarrow> number" where
  "num_sub (Num a) (Num b) = Num (a - b)"
| "num_sub _ _ = NaN"

fun num_mul :: "number \<Rightarrow> number \<Rightarrow> number" where
  "num_mul (Num a) (Num b) = Num (a * b)"
| "num_mul _ _ = NaN"

fun num_div :: "number \<Rightarrow> number \<Rightarrow> number" where
  "num_div (Num a) (Num b) = (if b = 0 then NaN else Num (a / b))"
| "num_div _ _ = NaN"

fun num_gt :: "number \<Rightarrow> number \<Rightarrow> bool" where
  "num_gt (Num a) (Num b) = (a > b)"
| "num_gt _ _ = False"

fun num_lt :: "number \<Rightarrow> number \<Rightarrow> bool" where
  "num_lt (Num a) (Num b) = (a < b)"
| "num_lt _ _ = False"

subsection \<open>String built-ins\<close>

text \<open>\<open>s.charAt(i)\<close>: the one-character string at index \<open>i\<close>, or the empty string.\<close>

definition charAt :: "string \<Rightarrow> nat \<Rightarrow> string" where
  "charAt s i = (if i < length s then [s ! i] else [])"

text \<open>
  \<open>s.substring(a, b)\<close>: both indices are clamped to \<open>[0, length]\<close> and swapped when
  \<open>a > b\<close>; \<open>s.substring(a)\<close> runs to the end of the string.
\<close>

definition substring :: "string \<Rightarrow> int \<Rightarrow> int \<Rightarrow> string" where
  "substring s a b =
     (let n = int (length s);
          a' = min (max a 0) n;
          b' = min (max b 0) n;
          lo = min a' b';
          hi = max a' b'
      in take (nat (hi - lo)) (drop (nat lo) s))"

definition substring_from :: "string \<Rightarrow> int \<Rightarrow> string" where
  "substring_from s a = substring s a (int (length s))"

text \<open>
  \<open>s.indexOf(pat, from)\<close> for a non-empty pattern: the first index at or after \<open>from\<close>
  where \<open>pat\<close> occurs, or \<open>-1\<close>.
\<close>

definition indexOf :: "string \<Rightarrow> string \<Rightarrow> int \<Rightarrow> int" where
  "indexOf s pat from =
     (case filter (\<lambda>i. prefix pat (drop i s)) [nat from ..< length s] of
        [] \<Rightarrow> - 1
      | i # _ \<Rightarrow> int i)"

text \<open>
  \<open>s.split(sep)\<close>: with an empty separator the code units of \<open>s\<close>; otherwise the pieces
  between the non-overlapping occurrences of \<open>sep\<close>, found from the left. The result of
  splitting on a non-empty separator is never empty.
\<close>

function split_go :: "string \<Rightarrow> string \<Rightarrow> string \<Rightarrow> string list" where
  "split_go sep acc [] = [rev acc]"
| "split_go sep acc (c # cs) =
     (if sep \<noteq> [] \<and> prefix sep (c # cs)
      then rev acc # split_go sep [] (drop (length sep) (c # cs))
      else split_go sep (c # acc) cs)"
  by pat_completeness auto
termination
  by (relation "measure (\<lambda>(sep, acc, s). length s)") auto

definition split :: "string \<Rightarrow> string \<Rightarrow> string list" where
  "split s sep = (if sep = [] then map (\<lambda>c. [c]) s else split_go sep [] s)"

text \<open>\<open>parts.join(sep)\<close> on an array of strings.\<close>

fun join :: "string list \<Rightarrow> string \<Rightarrow> string" where
  "join [] sep = []"
| "join [p] sep = p"
| "join (p # q # ps) sep = p @ sep @ join (q # ps) sep"

text \<open>\<open>s.trim()\<close> and \<open>s.toLowerCase()\<close>, on the ASCII range.\<close>

definition is_space :: "char \<Rightarrow> bool" where
  "is_space c = ((of_char c :: nat) \<in> {9, 10, 11, 12, 13, 32})"

definition trim :: "string \<Rightarrow> string" where
  "trim s = rev (dropWhile is_space (rev (dropWhile is_space s)))"

definition toLowerCase :: "string \<Rightarrow> string" where
  "toLowerCase s =
     map (\<lambda>c. if 65 \<le> (of_char c :: nat) \<and> (of_char c :: nat) \<le> 90
               then char_of (of_char c + 32 :: nat) else c) s"

text \<open>Conversion of a non-negative integer to its decimal string, as in \<open>id + "" + i\<close>.\<close>

fun string_of_nat :: "nat \<Rightarrow> string" where
  "string_of_nat n =
     (if n < 10 then [char_of (48 + n)]
      else string_of_nat (n div 10) @ [char_of (48 + n mod 10)])"

declare string_of_nat.simps [simp del]

text \<open>String concatenation converts \<open>undefined\<close> to the text \<open>undefined\<close>.\<close>

definition to_str :: "string option \<Rightarrow> string" where
  "to_str v = (case v of None \<Rightarrow> ''undefined'' | Some s \<Rightarrow> s)"

text \<open>
  \<open>parseFloat(s)\<close>: leading white space, an optional sign, decimal digits with an optional
  fraction and an optional exponent; whatever follows is ignored, and a text without
  digits gives \<open>NaN\<close>. The literal \<open>Infinity\<close> is not represented, and a number too large
  for a double is read as the real it denotes, not as an infinity.
\<close>

definition is_digit :: "char \<Rightarrow> bool" where
  "is_digit c = (48 \<le> (of_char c :: nat) \<and> (of_char c :: nat) \<le> 57)"

definition digits_val :: "string \<Rightarrow> nat" where
  "digits_val ds = foldl (\<lambda>n c. 10 * n + (of_char c - 48)) 0 ds"

definition parseFloat :: "string \<Rightarrow> number" where
  "parseFloat s =
     (let t = dropWhile is_space s;
          neg = (take 1 t = ''-'');
          u = (if take 1 t = ''-'' \<or> take 1 t = ''+'' then drop 1 t else t);
          ip = takeWhile is_digit u;
          r1 = dropWhile is_digit u;
          fp = (if take 1 r1 = ''.'' then takeWhile is_digit (drop 1 r1) else []);
          r2 = (if take 1 r1 = ''.'' then dropWhile is_digit (drop 1 r1) else r1);
          es = (if take 1 r2 = ''e'' \<or> take 1 r2 = ''E'' then drop 1 r2 else []);
          eneg = (take 1 es = ''-'');
          ed = takeWhile is_digit (if take 1 es = ''-'' \<or> take 1 es = ''+'' then drop 1 es else es);
          mant = real (digits_val ip) + real (digits_val fp) / 10 ^ length fp;
          m = (if ed = [] then mant
               else if eneg then mant / 10 ^ digits_val ed
               else mant * 10 ^ digits_val ed)
      in if ip = [] \<and> fp = [] then NaN else Num (if neg then - m else m))"

subsection \<open>Array built-ins\<close>

text \<open>\<open>xs[i]\<close>: \<open>undefined\<close> outside the array.\<close>

definition js_nth :: "'a list \<Rightarrow> nat \<Rightarrow> 'a option" where
  "js_nth xs i = (if i < length xs then Some (xs ! i) else None)"

text \<open>\<open>xs.indexOf(v)\<close>: the first index holding \<open>v\<close>, or \<open>-1\<close>.\<close>

definition array_indexOf :: "'a list \<Rightarrow> 'a \<Rightarrow> int" where
  "array_indexOf xs v =
     (case filter (\<lambda>i. xs ! i = v) [0 ..< length xs] of [] \<Rightarrow> - 1 | i # _ \<Rightarrow> int i)"

text \<open>\<open>xs.sort()\<close> on strings: code-unit order, with the \<open>undefined\<close> entries last.\<close>

definition array_sort :: "string option list \<Rightarrow> string option list" where
  "array_sort xs = map Some (sort (List.map_filter (\<lambda>v. v) xs)) @ filter (\<lambda>v. v = None) xs"

text \<open>
  \<open>xs.sort(compare)\<close>. The language leaves the algorithm to the engine, and with a
  comparator that is not consistent the result depends on it. The model is the
  algorithm of the V8 engine (TimSort) on an array of fewer than 64 elements, which it
  treats as a single run: \<open>CountAndMakeRun\<close> finds the run at the start of the array,
  reversing it when it descends, and \<open>BinaryInsertionSort\<close> inserts the elements after
  it one by one at the position found by binary search. On a longer array the engine
  cuts several runs and merges them; with a consistent comparator the result is the
  same, the sort being stable.

  The length of the run after its first two elements: the loop of \<open>CountAndMakeRun\<close>
  compares each element with the previous one and stops at the first that breaks the
  direction.
\<close>

fun runLength :: "('a \<Rightarrow> 'a \<Rightarrow> int) \<Rightarrow> bool \<Rightarrow> 'a \<Rightarrow> 'a list \<Rightarrow> nat" where
  "runLength compare isDescending previousElement [] = 0"
| "runLength compare isDescending previousElement (currentElement # rest) =
     (let order = compare currentElement previousElement
      in if (if isDescending then order \<ge> 0 else order < 0) then 0
         else Suc (runLength compare isDescending currentElement rest))"

text \<open>
  \<open>CountAndMakeRun\<close> from the start of the array: the first comparison is of the second
  element with the first, and the run descends when it is negative. The array with the
  run made ascending and the length of the run.
\<close>

definition countAndMakeRun :: "('a \<Rightarrow> 'a \<Rightarrow> int) \<Rightarrow> 'a list \<Rightarrow> 'a list \<times> nat" where
  "countAndMakeRun compare workArray =
     (case workArray of
        elementHigh # elementLow # rest \<Rightarrow>
          let isDescending = (compare elementLow elementHigh < 0);
              n = 2 + runLength compare isDescending elementLow rest
          in (if isDescending then rev (take n workArray) @ drop n workArray else workArray, n)
      | _ \<Rightarrow> (workArray, length workArray))"

text \<open>
  The binary search of \<open>BinaryInsertionSort\<close> for the position of \<open>pivot\<close> among the
  elements before it, and the loop that moves each element after the run to its
  position: \<open>placed\<close> holds the elements before \<open>start\<close>.
\<close>

function findInsertionPoint :: "('a \<Rightarrow> 'a \<Rightarrow> int) \<Rightarrow> 'a \<Rightarrow> 'a list \<Rightarrow> nat \<Rightarrow> nat \<Rightarrow> nat" where
  "findInsertionPoint compare pivot workArray left right =
     (if left < right
      then let mid = left + (right - left) div 2
           in if compare pivot (workArray ! mid) < 0
              then findInsertionPoint compare pivot workArray left mid
              else findInsertionPoint compare pivot workArray (mid + 1) right
      else left)"
  by pat_completeness auto
termination
  by (relation "measure (\<lambda>(c, p, w, left, right). right - left)") auto

declare findInsertionPoint.simps [simp del]

fun binaryInsertionSort :: "('a \<Rightarrow> 'a \<Rightarrow> int) \<Rightarrow> 'a list \<Rightarrow> 'a list \<Rightarrow> 'a list" where
  "binaryInsertionSort compare placed [] = placed"
| "binaryInsertionSort compare placed (pivot # rest) =
     (let left = findInsertionPoint compare pivot placed 0 (length placed)
      in binaryInsertionSort compare (take left placed @ pivot # drop left placed) rest)"

definition array_sort_by :: "('a \<Rightarrow> 'a \<Rightarrow> int) \<Rightarrow> 'a list \<Rightarrow> 'a list" where
  "array_sort_by compare xs =
     (if length xs < 2 then xs
      else case countAndMakeRun compare xs of
             (workArray, n) \<Rightarrow> binaryInsertionSort compare (take n workArray) (drop n workArray))"

text \<open>
  \<open>xs.findIndex(p)\<close> with a callback that may fault: the first index whose element
  satisfies \<open>p\<close>, \<open>None\<close> for \<open>-1\<close>; the callback runs on the elements in order and a fault
  ends the search.
\<close>

fun findIndex :: "('a \<Rightarrow> error + bool) \<Rightarrow> 'a list \<Rightarrow> error + nat option" where
  "findIndex p [] = Inr None"
| "findIndex p (ele # rest) =
     (case p ele of
        Inl e \<Rightarrow> Inl e
      | Inr True \<Rightarrow> Inr (Some 0)
      | Inr False \<Rightarrow>
          (case findIndex p rest of
             Inl e \<Rightarrow> Inl e
           | Inr None \<Rightarrow> Inr None
           | Inr (Some i) \<Rightarrow> Inr (Some (Suc i))))"

text \<open>A loop over an array whose body may fault: the first fault ends it.\<close>

fun traverse :: "('a \<Rightarrow> error + 'b) \<Rightarrow> 'a list \<Rightarrow> error + 'b list" where
  "traverse f [] = Inr []"
| "traverse f (a # as) =
     (case f a of
        Inl e \<Rightarrow> Inl e
      | Inr b \<Rightarrow> (case traverse f as of Inl e \<Rightarrow> Inl e | Inr bs \<Rightarrow> Inr (b # bs)))"

lemma traverse_cong [fundef_cong]:
  "xs = ys \<Longrightarrow> (\<And>x. x \<in> set ys \<Longrightarrow> f x = g x) \<Longrightarrow> traverse f xs = traverse g ys"
  by (induction ys arbitrary: xs) (auto split: sum.splits)

section \<open>Utils: string helpers, geometry and the tree parser\<close>

text \<open>\<open>Utils.count(st, char, start)\<close>: occurrences of the first character of \<open>char\<close> in
  \<open>st\<close> from index \<open>start\<close> on.\<close>

definition count :: "string \<Rightarrow> string \<Rightarrow> nat \<Rightarrow> nat" where
  "count st ch start = length (filter (\<lambda>i. charAt st i = charAt ch 0) [start ..< length st])"

text \<open>\<open>Utils.rsplit(st, sep, maxsplit)\<close>: \<open>parts.slice(0, -maxsplit)\<close> joined again, followed
  by the last \<open>maxsplit\<close> parts; all the parts when \<open>maxsplit\<close> is 0.\<close>

definition rsplit :: "string \<Rightarrow> string \<Rightarrow> nat \<Rightarrow> string list" where
  "rsplit st sep maxsplit =
     (let parts = split st sep
      in if maxsplit \<noteq> 0
         then [join (take (length parts - maxsplit) parts) sep] @ drop (length parts - maxsplit) parts
         else parts)"

text \<open>
  \<open>Utils.splitIntoChildren\<close>. The loop runs once for each comma of the text; its state is the
  remaining text, the index of the last comma looked at and the components found so far.
\<close>

fun splitLoop :: "nat \<Rightarrow> string \<Rightarrow> int \<Rightarrow> string list \<Rightarrow> string \<times> string list" where
  "splitLoop 0 rawTex previousIndex components = (rawTex, components)"
| "splitLoop (Suc commas) rawTex previousIndex components =
     (let found = indexOf rawTex '','' (previousIndex + 1);
          currentIndex = (if found = - 1 then int (length rawTex) else found);
          leftBrack = count (substring rawTex 0 currentIndex) ''('' 0;
          rightBrack = count (substring rawTex 0 currentIndex) '')'' 0
      in if leftBrack = rightBrack
         then splitLoop commas (substring_from rawTex (currentIndex + 1)) 0
                (components @ [substring rawTex 0 currentIndex])
         else splitLoop commas rawTex currentIndex components)"

definition splitIntoChildren :: "string \<Rightarrow> string list" where
  "splitIntoChildren rawTex =
     (case splitLoop (count rawTex '','' 0) rawTex 0 [] of
        (rest, components) \<Rightarrow> if rest \<noteq> [] then components @ [rest] else components)"

text \<open>
  \<open>Utils.rotate\<close>, \<open>Utils.scale\<close> and \<open>Utils.translate\<close> on a two-element array, here a pair.
  \<open>Math.cos\<close> and \<open>Math.sin\<close> are the functions on the reals: the cosine of a quarter turn
  is 0 here, where \<open>Math.cos(-Math.PI/2)\<close> is about \<open>6.1e-17\<close>. No property below depends on
  the values they take.
\<close>

definition rotate :: "number \<times> number \<Rightarrow> real \<Rightarrow> number \<times> number" where
  "rotate p rad =
     (num_sub (num_mul (fst p) (Num (cos rad))) (num_mul (snd p) (Num (sin rad))),
      num_sub (num_mul (fst p) (Num (sin rad))) (num_mul (snd p) (Num (cos rad))))"

definition scale :: "number \<times> number \<Rightarrow> number \<times> number \<Rightarrow> number \<times> number" where
  "scale p s = (num_mul (fst p) (fst s), num_mul (snd p) (snd s))"

definition translate :: "number \<times> number \<Rightarrow> number \<times> number \<Rightarrow> number \<times> number" where
  "translate p t = (num_add (fst p) (fst t), num_add (snd p) (snd t))"

subsection \<open>Lengths of the pieces the parser recurses on\<close>

lemma join_Cons: "ys \<noteq> [] \<Longrightarrow> join (x # ys) sep = x @ sep @ join ys sep"
  by (cases ys) auto

lemma split_go_ne: "split_go sep acc s \<noteq> []"
  by (induction sep acc s rule: split_go.induct) auto

lemma split_go_join: "sep \<noteq> [] \<Longrightarrow> join (split_go sep acc s) sep = rev acc @ s"
proof (induction sep acc s rule: split_go.induct)
  case (1 sep acc)
  then show ?case by simp
next
  case (2 sep acc c cs)
  show ?case
  proof (cases "prefix sep (c # cs)")
    case True
    then have "sep @ drop (length sep) (c # cs) = c # cs"
      by (metis append_eq_conv_conj prefix_def)
    with 2 True show ?thesis
      by (simp add: join_Cons split_go_ne del: drop_Suc_Cons)
  next
    case False
    with 2 show ?thesis by simp
  qed
qed

lemma join_snoc: "join (xs @ [x]) sep = (if xs = [] then x else join xs sep @ sep @ x)"
  by (induction xs sep rule: join.induct) auto

lemma split_join: "sep \<noteq> [] \<Longrightarrow> join (split s sep) sep = s"
  by (simp add: split_def split_go_join)

lemma split_ne: "sep \<noteq> [] \<Longrightarrow> split s sep \<noteq> []"
  by (simp add: split_def split_go_ne)

lemma rsplit_one:
  "rsplit st sep (Suc 0) = [join (butlast (split st sep)) sep] @ drop (length (split st sep) - 1) (split st sep)"
  by (simp add: rsplit_def Let_def butlast_conv_take)

lemma length_rsplit_0: 
  assumes "sep \<noteq> []" shows "length (rsplit st sep (Suc 0) ! 0) \<le> length st"
proof -
  let ?ps = "split st sep"
  have ne: "?ps \<noteq> []" using assms by (rule split_ne)
  then have "join (butlast ?ps @ [last ?ps]) sep = st"
    using assms by (simp add: split_join)
  then have "length (join (butlast ?ps) sep) \<le> length st"
    by (cases "butlast ?ps = []") (auto simp: join_snoc dest: arg_cong [where f = length])
  then show ?thesis by (simp add: rsplit_one)
qed

lemma count_pos_length: "count s ch (Suc 0) \<noteq> 0 \<Longrightarrow> 2 \<le> length s"
  by (cases s; cases "tl s") (auto simp: count_def)

lemma length_substring_inner: "2 \<le> length s \<Longrightarrow> length (substring s 1 (int (length s) - 1)) < length s"
  by (auto simp: substring_def Let_def min_def max_def)

lemma length_substring_le: "length (substring s a b) \<le> length s"
  by (auto simp: substring_def Let_def min_def max_def)

lemma splitLoop_length:
  "splitLoop n raw prev comps = (rest, comps') \<Longrightarrow>
     length rest \<le> length raw \<and> (\<forall>x \<in> set comps'. x \<in> set comps \<or> length x \<le> length raw)"
proof (induction n raw prev comps arbitrary: rest comps' rule: splitLoop.induct)
  case (1 rawTex previousIndex components)
  then show ?case by auto
next
  case (2 commas rawTex previousIndex components)
  have sub: "\<And>a. length (substring_from rawTex a) \<le> length rawTex"
    by (simp add: substring_from_def length_substring_le)
  from 2 show ?case
    apply (simp add: Let_def del: split_paired_All split: if_splits)
    using sub length_substring_le apply (fastforce dest: le_trans)+
    done
qed

lemma splitIntoChildren_length: "x \<in> set (splitIntoChildren d) \<Longrightarrow> length x \<le> length d"
proof -
  obtain rest comps where sl: "splitLoop (count d '','' 0) d 0 [] = (rest, comps)"
    by (cases "splitLoop (count d '','' 0) d 0 []")
  assume "x \<in> set (splitIntoChildren d)"
  with sl splitLoop_length [OF sl] show ?thesis
    by (auto simp: splitIntoChildren_def split: if_splits)
qed

subsection \<open>The parsed object tree\<close>

text \<open>
  The data object of a node. The parser writes \<open>name\<close>, \<open>id\<close> and \<open>distToParent\<close>; the
  dendrogram later adds \<open>distance\<close> and \<open>label\<close> to the same object. A field that is absent
  is \<open>None\<close>; an absent \<open>distance\<close> reads as \<open>NaN\<close>.
\<close>

record nodedata =
  name :: "string option"
  node_id :: "string option"
  distToParent :: "string option"
  distance :: number
  label :: "string option"

definition empty_data :: nodedata where
  "empty_data = \<lparr>name = None, node_id = None, distToParent = None, distance = NaN, label = None\<rparr>"

datatype jsobj = Obj (obj_fields: nodedata) (obj_children: "jsobj list option")

text \<open>
  \<open>Utils.parsePhylogramTree\<close>. A leaf object has no \<open>children\<close> property; the object
  returned for the text of a group has a \<open>children\<close> array and gets its \<open>distToParent\<close> and
  \<open>id\<close> from the caller. The object returned to the top-level caller has neither.
\<close>

function parsePhylogramTree :: "string \<Rightarrow> string \<Rightarrow> jsobj" where
  "parsePhylogramTree dendrogram ident =
     Obj empty_data (Some (map (\<lambda>(i, childText).
        let txt = rsplit childText '':'' 1;
            c = count (txt ! 0) '':'' 1
        in if c = 0
           then Obj (empty_data\<lparr>name := Some (substring (txt ! 0) 1 (int (length (txt ! 0)) - 1)),
                                   node_id := Some (ident @ string_of_nat i),
                                   distToParent := js_nth txt 1\<rparr>) None
           else (let child = substring (txt ! 0) 1 (int (length (txt ! 0)) - 1);
                     obj = parsePhylogramTree child (ident @ string_of_nat i)
                 in Obj ((obj_fields obj)\<lparr>distToParent := js_nth txt 1,
                                         node_id := Some (ident @ string_of_nat i)\<rparr>)
                        (obj_children obj)))
      (enumerate 0 (splitIntoChildren dendrogram))))"
  by pat_completeness auto
termination
proof (relation "measure (\<lambda>(d, i). length d)", goal_cases)
  case 1
  show ?case by simp
next
  case (2 dendrogram ident x i childText tx c child)
  from \<open>x \<in> set (enumerate 0 (splitIntoChildren dendrogram))\<close> \<open>(i, childText) = x\<close>
  have "childText \<in> set (splitIntoChildren dendrogram)"
    by (auto simp: in_set_enumerate_eq)
  then have a: "length childText \<le> length dendrogram"
    by (rule splitIntoChildren_length)
  have b: "length (tx ! 0) \<le> length childText"
    unfolding \<open>tx = rsplit childText '':'' 1\<close>
    using length_rsplit_0 [of "'':''" childText] by simp
  from \<open>c = count (tx ! 0) '':'' 1\<close> \<open>c \<noteq> 0\<close>
  have "count (tx ! 0) '':'' (Suc 0) \<noteq> 0" by simp
  then have "2 \<le> length (tx ! 0)"
    by (rule count_pos_length)
  then have "length (substring (tx ! 0) 1 (int (length (tx ! 0)) - 1)) < length (tx ! 0)"
    by (rule length_substring_inner)
  with a b show ?case
    unfolding \<open>child = substring (tx ! 0) 1 (int (length (tx ! 0)) - 1)\<close> by simp
qed

declare parsePhylogramTree.simps [simp del]

section \<open>The d3 hierarchy\<close>

text \<open>
  A node of the hierarchy that \<open>d3.hierarchy\<close> builds over the parsed objects: its data
  object, the \<open>value\<close> written by \<open>count()\<close> (unset before), the layout coordinates and
  its children. A node without a \<open>children\<close> property has the empty list; d3 never
  stores an empty array there.
\<close>

datatype hnode =
  HNode (data: nodedata) (node_value: "nat option") (node_x: number) (node_y: number)
        (children: "hnode list")

text \<open>\<open>d3.hierarchy(data)\<close>: one node for each object, children in the order of the array.\<close>

fun hierarchy :: "jsobj \<Rightarrow> hnode" where
  "hierarchy (Obj f None) = HNode f None NaN NaN []"
| "hierarchy (Obj f (Some cs)) = HNode f None NaN NaN (map hierarchy cs)"

text \<open>
  \<open>node.count()\<close>: in post-order, the value of a node without children is 1 and the
  value of any other node is the sum of its children's values, already set.
\<close>

fun node_count :: "hnode \<Rightarrow> hnode" where
  "node_count (HNode d v px py cs) =
     (let cs' = map node_count cs
      in HNode d (Some (if cs' = [] then 1
                        else sum_list (map (\<lambda>c. case node_value c of Some k \<Rightarrow> k | None \<Rightarrow> 0) cs')))
               px py cs')"

text \<open>
  \<open>node.each(f)\<close> for a callback that assigns fields of the node it is given (none of the
  engine's callbacks touches the child list); each node is visited once.
\<close>

fun each :: "(hnode \<Rightarrow> hnode) \<Rightarrow> hnode \<Rightarrow> hnode" where
  "each f (HNode d v px py cs) =
     (case f (HNode d v px py cs) of
        HNode d' v' px' py' _ \<Rightarrow> HNode d' v' px' py' (map (each f) cs))"

declare each.simps [simp del]

text \<open>The nodes in the order of \<open>node.eachBefore\<close> (pre-order), and \<open>node.leaves()\<close>.\<close>

fun eachBefore :: "hnode \<Rightarrow> hnode list" where
  "eachBefore (HNode d v px py cs) = HNode d v px py cs # concat (map eachBefore cs)"

definition leaves :: "hnode \<Rightarrow> hnode list" where
  "leaves nd = filter (\<lambda>n. children n = []) (eachBefore nd)"

text \<open>
  A reference to a node of a hierarchy: the node with the chain of its \<open>parent\<close> links, its
  parent first and the root last. The \<open>parent\<close> of the root is \<open>null\<close>.
\<close>

datatype noderef = Ref (node: hnode) (ancestors: "hnode list")

definition parent :: "noderef \<Rightarrow> noderef option" where
  "parent r = (case ancestors r of [] \<Rightarrow> None | p # up \<Rightarrow> Some (Ref p up))"

fun refsBefore :: "hnode \<Rightarrow> hnode list \<Rightarrow> noderef list" where
  "refsBefore (HNode d v px py cs) up =
     Ref (HNode d v px py cs) up # concat (map (\<lambda>c. refsBefore c (HNode d v px py cs # up)) cs)"

definition leafRefs :: "noderef \<Rightarrow> noderef list" where
  "leafRefs r = filter (\<lambda>n. children (node n) = []) (refsBefore (node r) (ancestors r))"

text \<open>\<open>node.descendants()\<close>: the node first, then level by level.\<close>

fun refsAtDepth :: "nat \<Rightarrow> hnode \<Rightarrow> hnode list \<Rightarrow> noderef list" where
  "refsAtDepth 0 n up = [Ref n up]"
| "refsAtDepth (Suc k) n up = concat (map (\<lambda>c. refsAtDepth k c (n # up)) (children n))"

fun node_height :: "hnode \<Rightarrow> nat" where
  "node_height (HNode d v px py cs) = (if cs = [] then 0 else Suc (foldr max (map node_height cs) 0))"

definition descendants :: "noderef \<Rightarrow> noderef list" where
  "descendants r =
     concat (map (\<lambda>k. refsAtDepth k (node r) (ancestors r)) [0 ..< Suc (node_height (node r))])"

text \<open>
  \<open>node.sort(compare)\<close>: in pre-order, the child array of every node that has one is
  sorted in place.
\<close>

lemma mset_binaryInsertionSort:
  "mset (binaryInsertionSort compare placed rest) = mset placed + mset rest"
proof (induction rest arbitrary: placed)
  case Nil
  show ?case by simp
next
  case (Cons pivot rest)
  have "mset (take k placed @ pivot # drop k placed) = add_mset pivot (mset placed)" for k
    using append_take_drop_id [of k placed] by (metis mset_append union_mset_add_mset_right mset.simps(2))
  with Cons show ?case by (simp add: Let_def)
qed

lemma mset_take_drop: "mset (take n ys) + mset (drop n ys) = mset ys"
  using append_take_drop_id [of n ys] by (metis mset_append)

lemma mset_countAndMakeRun: "mset (fst (countAndMakeRun compare xs)) = mset xs"
  by (simp add: countAndMakeRun_def Let_def mset_take_drop split: list.splits)

lemma mset_array_sort_by: "mset (array_sort_by compare xs) = mset xs"
proof (cases "countAndMakeRun compare xs")
  case (Pair workArray n)
  have "mset (take n workArray) + mset (drop n workArray) = mset workArray"
    using append_take_drop_id [of n workArray] by (metis mset_append)
  moreover from Pair have "mset workArray = mset xs"
    using mset_countAndMakeRun [of compare xs] by simp
  ultimately show ?thesis
    using Pair by (simp add: array_sort_by_def mset_binaryInsertionSort)
qed

lemma set_array_sort_by: "set (array_sort_by compare xs) = set xs"
  using mset_array_sort_by [of compare xs] by (rule mset_eq_setD)

function sortNode :: "(hnode \<Rightarrow> hnode \<Rightarrow> int) \<Rightarrow> hnode \<Rightarrow> hnode" where
  "sortNode compare (HNode d v px py cs) =
     HNode d v px py (map (sortNode compare) (array_sort_by compare cs))"
  by pat_completeness auto
termination
  by (relation "measure (\<lambda>(c, n). size n)")
     (auto simp: set_array_sort_by less_Suc_eq_le size_list_estimation')

section \<open>ClusterMatch: the record\<close>

text \<open>
  A match refers to a node of the source hierarchy and a node of the target hierarchy.
  Its label is the source node's at the time of the match; the colour is given later.
\<close>

record ClusterMatch =
  match_label :: "string option"
  sourceNode :: noderef
  targetNode :: noderef
  color :: "string option"
  equalBranches :: "string list list"

definition newClusterMatch :: "noderef \<Rightarrow> noderef \<Rightarrow> ClusterMatch" where
  "newClusterMatch source target =
     \<lparr>match_label = label (data (node source)), sourceNode = source, targetNode = target,
      color = None, equalBranches = []\<rparr>"

section \<open>Dendrogram\<close>

text \<open>
  The state of a dendrogram once \<open>setRoot\<close> has given it its hierarchy. Every method
  below reads \<open>this._root\<close> and is modelled on such a state.
\<close>

record dendrogram =
  title :: string
  root :: hnode
  leafCount :: int
  cutoff :: number
  flipped :: bool

text \<open>The constructor followed by \<open>setRoot\<close>: leaf count \<open>-1\<close>, cutoff \<open>1.5\<close>, not flipped.\<close>

definition newDendrogram :: "string \<Rightarrow> hnode \<Rightarrow> dendrogram" where
  "newDendrogram t r = \<lparr>title = t, root = r, leafCount = - 1, cutoff = Num (3 / 2), flipped = False\<rparr>"

definition initLeafCount :: "dendrogram \<Rightarrow> dendrogram" where
  "initLeafCount t = t\<lparr>leafCount := int (length (leaves (root t)))\<rparr>"

definition setCutoff :: "number \<Rightarrow> dendrogram \<Rightarrow> dendrogram" where
  "setCutoff c t = t\<lparr>cutoff := c\<rparr>"

definition toggleFlipped :: "dendrogram \<Rightarrow> dendrogram" where
  "toggleFlipped t = t\<lparr>flipped := \<not> flipped t\<rparr>"

subsection \<open>Matching clusters\<close>

text \<open>
  The comparisons \<open>node.value < minChildren\<close> and \<open>trgt.value >= minChildren\<close>; both are
  false on a value that is not set.
\<close>

definition value_lt :: "nat option \<Rightarrow> int \<Rightarrow> bool" where
  "value_lt v m = (case v of None \<Rightarrow> False | Some k \<Rightarrow> int k < m)"

definition value_ge :: "nat option \<Rightarrow> int \<Rightarrow> bool" where
  "value_ge v m = (case v of None \<Rightarrow> False | Some k \<Rightarrow> int k \<ge> m)"

text \<open>
  \<open>_matchCluster\<close>: the first node of the other hierarchy, in pre-order, that carries the
  label of \<open>nd\<close> and is not trivial; \<open>None\<close> is the \<open>null\<close> result.
\<close>

definition matchCluster :: "noderef \<Rightarrow> dendrogram \<Rightarrow> int \<Rightarrow> ClusterMatch option" where
  "matchCluster nd other minChildren =
     (case filter (\<lambda>trgt. label (data (node nd)) \<noteq> None \<and>
                           value_ge (node_value (node trgt)) minChildren \<and>
                           label (data (node nd)) = label (data (node trgt)))
             (refsBefore (root other) []) of
        [] \<Rightarrow> None
      | trgt # _ \<Rightarrow> Some (newClusterMatch nd trgt))"

text \<open>
  \<open>findMatchingClusters\<close>. Reading \<open>node.children.length\<close> on a node without children
  faults. The final filter of the source removes \<open>null\<close> entries, of which the
  concatenation has none.
\<close>

function findMatchingClusters :: "noderef \<Rightarrow> dendrogram \<Rightarrow> int \<Rightarrow> error + ClusterMatch list" where
  "findMatchingClusters nd other minChildren =
     (if value_lt (node_value (node nd)) minChildren then Inr []
      else (case matchCluster nd other minChildren of
              Some m \<Rightarrow> Inr [m]
            | None \<Rightarrow>
                if children (node nd) = [] then Inl TypeError
                else (case traverse (\<lambda>c. findMatchingClusters (Ref c (node nd # ancestors nd)) other minChildren)
                             (children (node nd)) of
                        Inl e \<Rightarrow> Inl e
                      | Inr matches \<Rightarrow> Inr (concat matches))))"
  by pat_completeness auto
termination
proof (relation "measure (\<lambda>(nd, other, m). size (node nd))", goal_cases)
  case 1
  show ?case by simp
next
  case (2 nd other minChildren c)
  then show ?case
    by (cases "node nd") (auto simp: less_Suc_eq_le size_list_estimation')
qed

declare findMatchingClusters.simps [simp del]

subsection \<open>Distances and labels\<close>

text \<open>
  \<open>setDistance\<close>: in post-order, a node of value 1 gets distance 0 and any other node the
  parsed \<open>distToParent\<close> of its first child plus that child's distance; the cutoff becomes
  half the root's distance. Reading \<open>d.children[0]\<close> on a node without children faults.
\<close>

fun setDistanceNode :: "hnode \<Rightarrow> error + hnode" where
  "setDistanceNode (HNode d v px py cs) =
     (case traverse setDistanceNode cs of
        Inl e \<Rightarrow> Inl e
      | Inr cs' \<Rightarrow>
          if v = Some 1 then Inr (HNode (d\<lparr>distance := Num 0\<rparr>) v px py cs')
          else (case cs' of
                  [] \<Rightarrow> Inl TypeError
                | c # _ \<Rightarrow>
                    let nodeToChild = parseFloat (to_str (distToParent (data c)));
                        childToLeaf = distance (data c)
                    in Inr (HNode (d\<lparr>distance := num_add nodeToChild childToLeaf\<rparr>) v px py cs')))"

definition setDistance :: "dendrogram \<Rightarrow> error + dendrogram" where
  "setDistance t =
     (case setDistanceNode (root t) of
        Inl e \<Rightarrow> Inl e
      | Inr r \<Rightarrow> Inr (t\<lparr>root := r, cutoff := num_div (distance (data r)) (Num 2)\<rparr>))"

text \<open>
  \<open>setLeafLabels\<close>: a node of value 1 gets its name as label, cut before the last
  separator when \<open>trim\<close> is set. Splitting a name that is \<open>undefined\<close> faults.
\<close>

fun setLeafLabelsNode :: "bool \<Rightarrow> string \<Rightarrow> hnode \<Rightarrow> error + hnode" where
  "setLeafLabelsNode trim_last separator (HNode d v px py cs) =
     (case (if v = Some 1
            then (if trim_last
                  then (case name d of
                          None \<Rightarrow> Inl TypeError
                        | Some nm \<Rightarrow> Inr (d\<lparr>label := js_nth (rsplit nm separator 1) 0\<rparr>))
                  else Inr (d\<lparr>label := name d\<rparr>))
            else Inr d) of
        Inl e \<Rightarrow> Inl e
      | Inr d' \<Rightarrow>
          (case traverse (setLeafLabelsNode trim_last separator) cs of
             Inl e \<Rightarrow> Inl e
           | Inr cs' \<Rightarrow> Inr (HNode d' v px py cs')))"

definition setLeafLabels :: "bool \<Rightarrow> string \<Rightarrow> dendrogram \<Rightarrow> error + dendrogram" where
  "setLeafLabels trim_last separator t =
     (case setLeafLabelsNode trim_last separator (root t) of
        Inl e \<Rightarrow> Inl e
      | Inr r \<Rightarrow> Inr (t\<lparr>root := r\<rparr>))"

text \<open>
  \<open>setLabels\<close>. The loop over the children collects their labels, split on the separator
  when duplicates are to be removed; splitting a label that is \<open>undefined\<close> faults, and
  so does reading \<open>d.children.length\<close> on a node without children.
\<close>

fun childNamesLoop :: "bool \<Rightarrow> string \<Rightarrow> hnode list \<Rightarrow> string option list \<Rightarrow> error + string option list" where
  "childNamesLoop keepDuplicates separator [] childNames = Inr childNames"
| "childNamesLoop keepDuplicates separator (c # cs) childNames =
     (if \<not> keepDuplicates
      then (case label (data c) of
              None \<Rightarrow> Inl TypeError
            | Some nm \<Rightarrow>
                childNamesLoop keepDuplicates separator cs (childNames @ map Some (split nm separator)))
      else childNamesLoop keepDuplicates separator cs (childNames @ [label (data c)]))"

text \<open>The filter that keeps an item where \<open>childNames.indexOf(item) == pos\<close>.\<close>

definition removeDuplicates :: "'a list \<Rightarrow> 'a list" where
  "removeDuplicates childNames =
     map snd (filter (\<lambda>(pos, item). array_indexOf childNames item = int pos) (enumerate 0 childNames))"

text \<open>
  The concatenation loop: it starts from \<open>childNames[0]\<close> and appends the separator and
  the next name, an \<open>undefined\<close> operand being turned into text.
\<close>

definition concatLabel :: "string option list \<Rightarrow> string \<Rightarrow> string option" where
  "concatLabel childNames separator =
     foldl (\<lambda>lab nm. Some (to_str lab @ separator @ to_str nm))
       (case js_nth childNames 0 of None \<Rightarrow> None | Some v \<Rightarrow> v)
       (drop 1 childNames)"

definition nodeLabel :: "bool \<Rightarrow> bool \<Rightarrow> string \<Rightarrow> hnode list \<Rightarrow> error + string option" where
  "nodeLabel keepStructure keepDuplicates separator cs =
     (if cs = [] then Inl TypeError
      else case childNamesLoop keepDuplicates separator cs [] of
        Inl e \<Rightarrow> Inl e
      | Inr childNames \<Rightarrow>
          let childNames = array_sort childNames;
              childNames = (if \<not> keepDuplicates then removeDuplicates childNames else childNames);
              lab = concatLabel childNames separator
          in Inr (if keepStructure then Some (''_'' @ to_str lab @ ''_'') else lab))"

fun setLabelsNode :: "bool \<Rightarrow> bool \<Rightarrow> string \<Rightarrow> number \<Rightarrow> hnode \<Rightarrow> error + hnode" where
  "setLabelsNode keepStructure keepDuplicates separator self_cutoff (HNode d v px py cs) =
     (case traverse (setLabelsNode keepStructure keepDuplicates separator self_cutoff) cs of
        Inl e \<Rightarrow> Inl e
      | Inr cs' \<Rightarrow>
          if v = Some 1 then Inr (HNode d v px py cs')
          else if num_gt (distance d) self_cutoff then Inr (HNode (d\<lparr>label := None\<rparr>) v px py cs')
          else (case nodeLabel keepStructure keepDuplicates separator cs' of
                  Inl e \<Rightarrow> Inl e
                | Inr lab \<Rightarrow> Inr (HNode (d\<lparr>label := lab\<rparr>) v px py cs')))"

definition setLabels :: "bool \<Rightarrow> bool \<Rightarrow> string \<Rightarrow> dendrogram \<Rightarrow> error + dendrogram" where
  "setLabels keepStructure keepDuplicates separator t =
     (case setLabelsNode keepStructure keepDuplicates separator (cutoff t) (root t) of
        Inl e \<Rightarrow> Inl e
      | Inr r \<Rightarrow> Inr (t\<lparr>root := r\<rparr>))"

subsection \<open>Sorting\<close>

text \<open>
  The comparator of \<open>sort\<close>: the locale comparison of the lower-cased labels when both are
  set, and \<open>-1\<close> otherwise. \<open>localeCompare\<close> depends on the locale of the engine and is a
  parameter.
\<close>

definition compareLabels :: "(string \<Rightarrow> string \<Rightarrow> int) \<Rightarrow> hnode \<Rightarrow> hnode \<Rightarrow> int" where
  "compareLabels localeCompare a b =
     (case (label (data a), label (data b)) of
        (Some la, Some lb) \<Rightarrow> localeCompare (toLowerCase la) (toLowerCase lb)
      | _ \<Rightarrow> - 1)"

definition sort_dendrogram :: "(string \<Rightarrow> string \<Rightarrow> int) \<Rightarrow> dendrogram \<Rightarrow> dendrogram" where
  "sort_dendrogram localeCompare t = t\<lparr>root := sortNode (compareLabels localeCompare) (root t)\<rparr>"

subsection \<open>Flips and coordinates\<close>

definition set_x :: "number \<Rightarrow> hnode \<Rightarrow> hnode" where
  "set_x v n = HNode (data n) (node_value n) v (node_y n) (children n)"

text \<open>
  \<open>_flipXCoordinates\<close> and \<open>_scaleXCoordinates\<close> read the root and the first leaf before
  the traversal. \<open>leaves()\<close> of a node is never empty (lemma \<open>leaves_ne\<close> below).
\<close>

definition flipXCoordinates :: "number \<Rightarrow> dendrogram \<Rightarrow> dendrogram" where
  "flipXCoordinates labelWidth t =
     (let xroot = node_x (root t);
          xleaf = node_x (hd (leaves (root t)))
      in t\<lparr>root := each (\<lambda>n. set_x (num_add (num_add labelWidth xroot) (num_sub xleaf (node_x n))) n)
                       (root t)\<rparr>)"

definition scaleXCoordinates :: "dendrogram \<Rightarrow> dendrogram" where
  "scaleXCoordinates t =
     (let world = distance (data (root t));
          pixels = num_sub (node_x (hd (leaves (root t)))) (node_x (root t));
          rootx = node_x (root t)
      in t\<lparr>root := each (\<lambda>n. set_x (num_add (num_mul (num_div (num_sub world (distance (data n))) world)
                                                  pixels) rootx) n)
                       (root t)\<rparr>)"

text \<open>
  The callback of the first traversal in \<open>updateCoordinates\<close>: rotate the point of the node
  by \<open>-Math.PI/2\<close>, translate it by \<open>[dx, dy]\<close> and store it back.
\<close>

definition placeNode :: "number \<Rightarrow> number \<Rightarrow> hnode \<Rightarrow> hnode" where
  "placeNode dx dy nd =
     (let p = (node_x nd, node_y nd);
          p = rotate p (- pi / 2);
          p = translate p (dx, dy)
      in HNode (data nd) (node_value nd) (fst p) (snd p) (children nd))"

text \<open>
  \<open>updateCoordinates\<close>. The layout \<open>d3.cluster().size([height, width])\<close> belongs to the d3
  library and is a parameter: a function that assigns \<open>x\<close> and \<open>y\<close> of every node of the
  hierarchy it is given.
\<close>

definition updateCoordinates ::
  "(number \<Rightarrow> number \<Rightarrow> hnode \<Rightarrow> hnode) \<Rightarrow> number \<Rightarrow> number \<Rightarrow> number \<Rightarrow> number \<Rightarrow> number \<Rightarrow>
     dendrogram \<Rightarrow> dendrogram" where
  "updateCoordinates cluster dx dy width height labelWidth t =
     (let t = t\<lparr>root := cluster height width (root t)\<rparr>;
          t = t\<lparr>root := each (placeNode dx dy) (root t)\<rparr>;
          t = scaleXCoordinates t
      in if flipped t then flipXCoordinates labelWidth t else t)"

section \<open>ClusterMatch: equal and different branches\<close>

text \<open>
  The callback of \<open>findIndex\<close> in \<open>initEqualBranches\<close>, with \<open>this\<close> the node popped from the
  source worklist. Reading \<open>data\<close> of a parent that is \<open>null\<close> faults; a label that is
  \<open>undefined\<close> is compared as it is.
\<close>

definition partner :: "noderef \<Rightarrow> noderef \<Rightarrow> error + bool" where
  "partner this ele =
     (if node_value (node this) = Some 1
      then (if name (data (node this)) = name (data (node ele))
            then (case parent this of
                    None \<Rightarrow> Inl TypeError
                  | Some tp \<Rightarrow>
                      (case parent ele of
                         None \<Rightarrow> Inl TypeError
                       | Some ep \<Rightarrow> Inr (label (data (node tp)) = label (data (node ep)))))
            else Inr False)
      else (case parent this of
              None \<Rightarrow> Inl TypeError
            | Some tp \<Rightarrow>
                if label (data (node tp)) \<noteq> None
                then (case parent ele of
                        None \<Rightarrow> Inl TypeError
                      | Some ep \<Rightarrow>
                          Inr (label (data (node ep)) \<noteq> None \<and>
                               node_value (node ele) \<noteq> Some 1 \<and>
                               label (data (node this)) = label (data (node ele)) \<and>
                               label (data (node tp)) = label (data (node ep))))
                else Inr False))"

text \<open>The edge identifier \<open>parent.id + node.id\<close>.\<close>

definition edgeId :: "noderef \<Rightarrow> noderef \<Rightarrow> string" where
  "edgeId p n = to_str (node_id (data (node p))) @ to_str (node_id (data (node n)))"

text \<open>
  The \<open>while\<close> loop over the source worklist: \<open>pop\<close> takes the last node, a partner is
  spliced out of the target worklist and both parents are pushed.
\<close>

function equalEdgesLoop ::
  "noderef list \<Rightarrow> noderef list \<Rightarrow> string list \<Rightarrow> string list \<Rightarrow> error + string list \<times> string list" where
  "equalEdgesLoop searchNodes targetNodes equalEdgesSearch equalEdgesTarget =
     (if searchNodes = [] then Inr (equalEdgesSearch, equalEdgesTarget)
      else let n = last searchNodes;
               searchNodes' = butlast searchNodes
           in case findIndex (partner n) targetNodes of
                Inl e \<Rightarrow> Inl e
              | Inr None \<Rightarrow> equalEdgesLoop searchNodes' targetNodes equalEdgesSearch equalEdgesTarget
              | Inr (Some i) \<Rightarrow>
                  let trg = targetNodes ! i;
                      targetNodes' = take i targetNodes @ drop (Suc i) targetNodes
                  in (case parent n of
                        None \<Rightarrow> Inl TypeError
                      | Some np \<Rightarrow>
                          (case parent trg of
                             None \<Rightarrow> Inl TypeError
                           | Some tp \<Rightarrow>
                               equalEdgesLoop (searchNodes' @ [np]) (targetNodes' @ [tp])
                                 (equalEdgesSearch @ [edgeId np n])
                                 (equalEdgesTarget @ [edgeId tp trg]))))"
  by pat_completeness auto
termination
proof (relation "measure (\<lambda>(s, t, es, et). sum_list (map (\<lambda>r. Suc (length (ancestors r))) s))", goal_cases)
  case 1
  show ?case by simp
next
  case (2 searchNodes targetNodes es et n searchNodes' x)
  then have "searchNodes = searchNodes' @ [n]" by simp
  then show ?case by simp
next
  case (3 searchNodes targetNodes es et n searchNodes' x i trg targetNodes' np tp)
  then have a: "searchNodes = searchNodes' @ [n]" by simp
  from 3 have "length (ancestors np) < length (ancestors n)"
    by (auto simp: parent_def split: list.splits)
  with a show ?case by simp
qed

declare equalEdgesLoop.simps [simp del]

definition initEqualBranches :: "string \<Rightarrow> ClusterMatch \<Rightarrow> error + ClusterMatch" where
  "initEqualBranches type m =
     (if type = ''none'' then Inr (m\<lparr>equalBranches := []\<rparr>)
      else case equalEdgesLoop (leafRefs (sourceNode m)) (leafRefs (targetNode m)) [] [] of
             Inl e \<Rightarrow> Inl e
           | Inr (equalEdgesSearch, equalEdgesTarget) \<Rightarrow>
               if type = ''simi'' then Inr (m\<lparr>equalBranches := [equalEdgesSearch, equalEdgesTarget]\<rparr>)
               else (case traverse (\<lambda>ele. case parent ele of None \<Rightarrow> Inl TypeError | Some p \<Rightarrow> Inr (edgeId p ele))
                            (drop 1 (descendants (sourceNode m))) of
                       Inl e \<Rightarrow> Inl e
                     | Inr diffEdgesSearch \<Rightarrow>
                        (case traverse (\<lambda>ele. case parent ele of None \<Rightarrow> Inl TypeError | Some p \<Rightarrow> Inr (edgeId p ele))
                                (drop 1 (descendants (targetNode m))) of
                           Inl e \<Rightarrow> Inl e
                         | Inr diffEdgesTarget \<Rightarrow>
                             Inr (m\<lparr>equalBranches :=
                                     [filter (\<lambda>edge. edge \<notin> set equalEdgesSearch) diffEdgesSearch,
                                      filter (\<lambda>edge. edge \<notin> set equalEdgesTarget) diffEdgesTarget]\<rparr>))))"

section \<open>AppComponent: loading a dendrogram\<close>

text \<open>
  \<open>onLoadDendro\<close> once the text of the file has arrived: the first and the last character
  are dropped, the text is parsed and the hierarchy built, counted, measured and
  labelled with the defaults of \<open>setLeafLabels\<close> and the separator \<open>-\<close>.
\<close>

definition onLoadDendro :: "string \<Rightarrow> string \<Rightarrow> bool \<Rightarrow> bool \<Rightarrow> error + dendrogram" where
  "onLoadDendro fileName responseText keepStructure keepDuplicate =
     (let info = trim responseText;
          info = substring info 1 (int (length info) - 1);
          dendro = parsePhylogramTree info ''r'';
          d = newDendrogram fileName (node_count (hierarchy dendro));
          d = initLeafCount d
      in case setDistance d of
           Inl e \<Rightarrow> Inl e
         | Inr d \<Rightarrow>
             (case setLeafLabels True ''.'' d of
                Inl e \<Rightarrow> Inl e
              | Inr d \<Rightarrow> setLabels keepStructure keepDuplicate ''-'' d))"

section \<open>Notions used to state the properties\<close>

text \<open>
  The number parsed from the \<open>distToParent\<close> of a node, the path \<open>setDistance\<close> follows
  from a node (first children, down to the first node of value 1), and the sums of
  \<open>distToParent\<close> along every path from a node to a leaf below it.
\<close>

definition toParent :: "hnode \<Rightarrow> number" where
  "toParent n = parseFloat (to_str (distToParent (data n)))"

fun firstChildPath :: "hnode \<Rightarrow> hnode list" where
  "firstChildPath (HNode d v px py cs) =
     HNode d v px py cs #
       (if v = Some 1 then []
        else (case cs of [] \<Rightarrow> [] | c # _ \<Rightarrow> firstChildPath c))"

fun leafPathSums :: "hnode \<Rightarrow> number list" where
  "leafPathSums (HNode d v px py cs) =
     (if cs = [] then [Num 0]
      else concat (map (\<lambda>c. map (num_add (toParent c)) (leafPathSums c)) cs))"

text \<open>
  The tokens of the children of a node (the labels that are set, split on the separator
  when duplicates are not kept) and the label the specification describes: the tokens
  sorted (without repetition when duplicates are not kept), joined with the separator and
  wrapped in the marker when the structure is kept.
\<close>

definition tokens :: "bool \<Rightarrow> string \<Rightarrow> hnode list \<Rightarrow> string list" where
  "tokens keepDuplicates separator cs =
     (if keepDuplicates then List.map_filter (\<lambda>c. label (data c)) cs
      else concat (map (\<lambda>nm. split nm separator) (List.map_filter (\<lambda>c. label (data c)) cs)))"

definition expectedLabel :: "bool \<Rightarrow> bool \<Rightarrow> string \<Rightarrow> hnode list \<Rightarrow> string" where
  "expectedLabel keepStructure keepDuplicates separator cs =
     (let toks = tokens keepDuplicates separator cs;
          ordered = (if keepDuplicates then sort toks else sorted_list_of_set (set toks));
          joined = join ordered separator
      in if keepStructure then ''_'' @ joined @ ''_'' else joined)"

text \<open>
  Identifiers by position: every child in a tree of parsed objects carries the
  identifier given for its parent followed by its index. The identifiers of the nodes
  below an object, and a bound on the number of children of every object.
\<close>

function ids_by_position :: "string \<Rightarrow> jsobj \<Rightarrow> bool" where
  "ids_by_position parentId (Obj f None) = True"
| "ids_by_position parentId (Obj f (Some cs)) =
     list_all (\<lambda>(i, c). node_id (obj_fields c) = Some (parentId @ string_of_nat i) \<and>
                          ids_by_position (parentId @ string_of_nat i) c)
       (enumerate 0 cs)"
  by pat_completeness auto
termination
proof (relation "measure (\<lambda>(p, n). size n)", goal_cases)
  case 1
  show ?case by simp
next
  case (2 parentId f cs x i c)
  then have "c \<in> set cs" by (auto simp: in_set_enumerate_eq)
  then have "size c \<le> size_list size cs" by (rule size_list_estimation') simp
  then show ?case by simp
qed

fun descendant_ids :: "jsobj \<Rightarrow> string option list" where
  "descendant_ids (Obj f None) = []"
| "descendant_ids (Obj f (Some cs)) =
     concat (map (\<lambda>c. node_id (obj_fields c) # descendant_ids c) cs)"

fun max_children :: "nat \<Rightarrow> jsobj \<Rightarrow> bool" where
  "max_children k (Obj f None) = True"
| "max_children k (Obj f (Some cs)) = (length cs \<le> k \<and> list_all (max_children k) cs)"

text \<open>
  A hierarchy with the order of the children forgotten: two hierarchies that agree on it
  have the same nodes below the same parents, with the same fields.
\<close>

datatype utree = UNode nodedata "nat option" number number "utree multiset"

fun unordered :: "hnode \<Rightarrow> utree" where
  "unordered (HNode d v px py cs) = UNode d v px py (mset (map unordered cs))"

text \<open>
  A hierarchy with its coordinates forgotten: two hierarchies that agree on it differ
  in the coordinates of their nodes only.
\<close>

definition unplaced :: "hnode \<Rightarrow> hnode" where
  "unplaced n = each (\<lambda>d. HNode (data d) (node_value d) NaN NaN (children d)) n"

text \<open>
  A layout to instantiate the parameter of \<open>updateCoordinates\<close> with: it places a node by
  its depth alone.
\<close>

fun depthLayout :: "nat \<Rightarrow> number \<Rightarrow> number \<Rightarrow> hnode \<Rightarrow> hnode" where
  "depthLayout k height width (HNode d v px py cs) =
     HNode d v height (num_mul width (Num (real k))) (map (depthLayout (Suc k) height width) cs)"

text \<open>A comparison of strings by code units, to instantiate \<open>localeCompare\<close> with.\<close>

definition codeUnitCompare :: "string \<Rightarrow> string \<Rightarrow> int" where
  "codeUnitCompare a b = (if a < b then - 1 else if a = b then 0 else 1)"

section \<open>Examples\<close>

text \<open>
  The dendrogram of the text \<open>(('A.1':0.1,('B.1':5,'C.1':5):0.2):1.9,'D.1':2);\<close> (lemma
  \<open>nested_loaded\<close> below): its node \<open>r0\<close> lies within the cutoff and has the child \<open>r01\<close>
  beyond it.
\<close>

definition nested :: dendrogram where
  "nested =
     \<lparr>title = ''t'',
      root =
        HNode \<lparr>name = None, node_id = None, distToParent = None,
                 distance = Num 2, label = None\<rparr>
          (Some 4) NaN NaN
          [HNode \<lparr>name = None, node_id = Some ''r0'', distToParent = Some ''1.9'',
                    distance = Num (1 / 10), label = Some ''_A-undefined_''\<rparr>
             (Some 3) NaN NaN
             [HNode \<lparr>name = Some ''A.1'', node_id = Some ''r00'', distToParent = Some ''0.1'',
                       distance = Num 0, label = Some ''A''\<rparr>
                (Some 1) NaN NaN [],
              HNode \<lparr>name = None, node_id = Some ''r01'', distToParent = Some ''0.2'',
                       distance = Num 5, label = None\<rparr>
                (Some 2) NaN NaN
                [HNode \<lparr>name = Some ''B.1'', node_id = Some ''r010'', distToParent = Some ''5'',
                          distance = Num 0, label = Some ''B''\<rparr>
                   (Some 1) NaN NaN [],
                 HNode \<lparr>name = Some ''C.1'', node_id = Some ''r011'', distToParent = Some ''5'',
                          distance = Num 0, label = Some ''C''\<rparr>
                   (Some 1) NaN NaN []]],
           HNode \<lparr>name = Some ''D.1'', node_id = Some ''r1'', distToParent = Some ''2)'',
                    distance = Num 0, label = Some ''D''\<rparr>
             (Some 1) NaN NaN []],
      leafCount = 4, cutoff = Num 1, flipped = False\<rparr>"

definition nested_outer :: hnode where
  "nested_outer = children (root nested) ! 0"

definition nested_inner :: hnode where
  "nested_inner = children nested_outer ! 1"

text \<open>
  The worklist of \<open>initEqualBranches\<close> on the leaves below \<open>r0\<close> once the leaf \<open>r011\<close> has
  been paired: the leaves \<open>r00\<close> and \<open>r010\<close> and the node \<open>r01\<close>.
\<close>

definition nested_worklist :: "noderef list" where
  "nested_worklist =
     [Ref (children nested_outer ! 0) [nested_outer, root nested],
      Ref (children nested_inner ! 0) [nested_inner, nested_outer, root nested],
      Ref nested_inner [nested_outer, root nested]]"

text \<open>
  The dendrograms of the texts \<open>('A.1':1,(('B.1':0.1,'B.2':0.1):0.5,'C.2':0.6):0.4);\<close> and
  \<open>('D.1':1,('X.1':0.6,('B.1':0.1,'B.2':0.1):0.5):0.4);\<close> (lemmas \<open>match_source_loaded\<close>
  and \<open>match_target_loaded\<close> below), which share the cluster of \<open>B.1\<close> and \<open>B.2\<close>.
\<close>

definition match_source :: dendrogram where
  "match_source =
     \<lparr>title = ''t'',
      root =
        HNode \<lparr>name = None, node_id = None, distToParent = None,
                 distance = Num 1, label = None\<rparr>
          (Some 4) NaN NaN
          [HNode \<lparr>name = Some ''A.1'', node_id = Some ''r0'', distToParent = Some ''1'',
                    distance = Num 0, label = Some ''A''\<rparr>
             (Some 1) NaN NaN [],
           HNode \<lparr>name = None, node_id = Some ''r1'', distToParent = Some ''0.4)'',
                    distance = Num (3 / 5), label = None\<rparr>
             (Some 3) NaN NaN
             [HNode \<lparr>name = None, node_id = Some ''r10'', distToParent = Some ''0.5'',
                       distance = Num (1 / 10), label = Some ''_B-B_''\<rparr>
                (Some 2) NaN NaN
                [HNode \<lparr>name = Some ''B.1'', node_id = Some ''r100'', distToParent = Some ''0.1'',
                          distance = Num 0, label = Some ''B''\<rparr>
                   (Some 1) NaN NaN [],
                 HNode \<lparr>name = Some ''B.2'', node_id = Some ''r101'', distToParent = Some ''0.1'',
                          distance = Num 0, label = Some ''B''\<rparr>
                   (Some 1) NaN NaN []],
              HNode \<lparr>name = Some ''C.2'', node_id = Some ''r11'', distToParent = Some ''0.6'',
                       distance = Num 0, label = Some ''C''\<rparr>
                (Some 1) NaN NaN []]],
      leafCount = 4, cutoff = Num (1 / 2), flipped = False\<rparr>"

definition match_target :: dendrogram where
  "match_target =
     \<lparr>title = ''t'',
      root =
        HNode \<lparr>name = None, node_id = None, distToParent = None,
                 distance = Num 1, label = None\<rparr>
          (Some 4) NaN NaN
          [HNode \<lparr>name = Some ''D.1'', node_id = Some ''r0'', distToParent = Some ''1'',
                    distance = Num 0, label = Some ''D''\<rparr>
             (Some 1) NaN NaN [],
           HNode \<lparr>name = None, node_id = Some ''r1'', distToParent = Some ''0.4)'',
                    distance = Num (3 / 5), label = None\<rparr>
             (Some 3) NaN NaN
             [HNode \<lparr>name = Some ''X.1'', node_id = Some ''r10'', distToParent = Some ''0.6'',
                       distance = Num 0, label = Some ''X''\<rparr>
                (Some 1) NaN NaN [],
              HNode \<lparr>name = None, node_id = Some ''r11'', distToParent = Some ''0.5'',
                       distance = Num (1 / 10), label = Some ''_B-B_''\<rparr>
                (Some 2) NaN NaN
                [HNode \<lparr>name = Some ''B.1'', node_id = Some ''r110'', distToParent = Some ''0.1'',
                          distance = Num 0, label = Some ''B''\<rparr>
                   (Some 1) NaN NaN [],
                 HNode \<lparr>name = Some ''B.2'', node_id = Some ''r111'', distToParent = Some ''0.1'',
                          distance = Num 0, label = Some ''B''\<rparr>
                   (Some 1) NaN NaN []]]],
      leafCount = 4, cutoff = Num (1 / 2), flipped = False\<rparr>"

text \<open>
  The dendrogram of the text \<open>(('B.1':0.6,'C.2':0.6):0.4,'A.1':1);\<close> (lemma
  \<open>unset_first_loaded\<close> below): the first child of its root lies beyond the cutoff and has
  no label, the second is the leaf labelled \<open>A\<close>.
\<close>

definition unset_first :: dendrogram where
  "unset_first =
     \<lparr>title = ''t'',
      root =
        HNode \<lparr>name = None, node_id = None, distToParent = None,
                 distance = Num 1, label = None\<rparr>
          (Some 3) NaN NaN
          [HNode \<lparr>name = None, node_id = Some ''r0'', distToParent = Some ''0.4'',
                    distance = Num (3 / 5), label = None\<rparr>
             (Some 2) NaN NaN
             [HNode \<lparr>name = Some ''B.1'', node_id = Some ''r00'', distToParent = Some ''0.6'',
                       distance = Num 0, label = Some ''B''\<rparr>
                (Some 1) NaN NaN [],
              HNode \<lparr>name = Some ''C.2'', node_id = Some ''r01'', distToParent = Some ''0.6'',
                       distance = Num 0, label = Some ''C''\<rparr>
                (Some 1) NaN NaN []],
           HNode \<lparr>name = Some ''A.1'', node_id = Some ''r1'', distToParent = Some ''1)'',
                    distance = Num 0, label = Some ''A''\<rparr>
             (Some 1) NaN NaN []],
      leafCount = 3, cutoff = Num (1 / 2), flipped = False\<rparr>"

section \<open>Auxiliary lemmas\<close>

subsection \<open>Cluster matching\<close>

lemma traverse_Inr:
  "traverse f xs = Inr ys \<Longrightarrow> list_all2 (\<lambda>x y. f x = Inr y) xs ys"
  by (induction xs arbitrary: ys) (auto split: sum.splits)

lemma traverse_concat_mem:
  assumes "traverse f xs = Inr yss" and "m \<in> set (concat yss)"
  obtains x ys where "x \<in> set xs" and "f x = Inr ys" and "m \<in> set ys"
proof -
  from assms(1) have "list_all2 (\<lambda>x y. f x = Inr y) xs yss" by (rule traverse_Inr)
  moreover from assms(2) obtain ys where "ys \<in> set yss" "m \<in> set ys" by auto
  ultimately obtain x where "x \<in> set xs" "f x = Inr ys"
    unfolding list_all2_conv_all_nth in_set_conv_nth by metis
  with \<open>m \<in> set ys\<close> that show thesis by blast
qed

lemma matchCluster_Some:
  assumes "matchCluster nd other minChildren = Some m"
  shows "sourceNode m = nd \<and> value_ge (node_value (node (targetNode m))) minChildren
         \<and> label (data (node nd)) \<noteq> None
         \<and> label (data (node (targetNode m))) = label (data (node nd))"
proof -
  let ?P = "\<lambda>trgt. label (data (node nd)) \<noteq> None \<and>
                           value_ge (node_value (node trgt)) minChildren \<and>
                           label (data (node nd)) = label (data (node trgt))"
  from assms obtain trgt rest where f: "filter ?P (refsBefore (root other) []) = trgt # rest"
    and m: "m = newClusterMatch nd trgt"
    by (auto simp: matchCluster_def split: list.splits)
  from filter_eq_ConsD [OF f] have "?P trgt" by blast
  with m show ?thesis by (auto simp: newClusterMatch_def)
qed

lemma value_ge_not_lt: "value_ge v m \<Longrightarrow> \<not> value_lt v m"
  by (auto simp: value_ge_def value_lt_def split: option.splits)

lemma findMatchingClusters_inv:
  "findMatchingClusters nd other minChildren = Inr matches \<Longrightarrow> m \<in> set matches \<Longrightarrow>
     \<not> value_lt (node_value (node (sourceNode m))) minChildren \<and>
     value_ge (node_value (node (targetNode m))) minChildren \<and>
     (\<exists>between. ancestors (sourceNode m) = between @ ancestors nd \<and>
        (\<forall>a \<in> set between. \<not> value_lt (node_value a) minChildren))"
proof (induction nd other minChildren arbitrary: matches rule: findMatchingClusters.induct)
  case (1 nd other minChildren)
  show ?case
  proof (cases "value_lt (node_value (node nd)) minChildren")
    case True
    with "1.prems" show ?thesis by (simp add: findMatchingClusters.simps)
  next
    case nontrivial: False
    show ?thesis
    proof (cases "matchCluster nd other minChildren")
      case (Some m')
      with nontrivial "1.prems" have "m = m'" by (auto simp: findMatchingClusters.simps)
      with Some matchCluster_Some [OF Some] nontrivial show ?thesis by auto
    next
      case None
      with nontrivial "1.prems" obtain mss where
        ne: "children (node nd) \<noteq> []" and
        tr: "traverse (\<lambda>c. findMatchingClusters (Ref c (node nd # ancestors nd)) other minChildren)
               (children (node nd)) = Inr mss" and
        ms: "matches = concat mss"
        by (auto simp: findMatchingClusters.simps split: if_splits sum.splits)
      from "1.prems"(2) ms have mm: "m \<in> set (concat mss)" by simp
      obtain c ys where
        c: "c \<in> set (children (node nd))" and
        call: "findMatchingClusters (Ref c (node nd # ancestors nd)) other minChildren = Inr ys" and
        mem: "m \<in> set ys"
        using traverse_concat_mem [OF tr mm] by blast
      from "1.IH" [OF nontrivial None ne c call mem]
      obtain between where
        s: "\<not> value_lt (node_value (node (sourceNode m))) minChildren" and
        t: "value_ge (node_value (node (targetNode m))) minChildren" and
        b: "ancestors (sourceNode m) = between @ node nd # ancestors nd" and
        nb: "\<forall>a \<in> set between. \<not> value_lt (node_value a) minChildren"
        by auto
      from b have "ancestors (sourceNode m) = (between @ [node nd]) @ ancestors nd" by simp
      moreover from nb nontrivial
      have "\<forall>a \<in> set (between @ [node nd]). \<not> value_lt (node_value a) minChildren" by simp
      ultimately show ?thesis using s t by blast
    qed
  qed
qed

subsection \<open>Leaves\<close>

lemma eachBefore_ne: "eachBefore n \<noteq> []"
  by (cases n) simp

lemma leaves_Node:
  "leaves (HNode d v px py cs) = (if cs = [] then [HNode d v px py cs] else concat (map leaves cs))"
  by (auto simp: leaves_def [abs_def] filter_concat comp_def)

lemma leaves_ne: "leaves n \<noteq> []"
proof (induction n)
  case (HNode d v px py cs)
  show ?case
  proof (cases cs)
    case Nil
    then show ?thesis by (simp add: leaves_Node)
  next
    case (Cons c cs')
    with HNode [of c] show ?thesis by (simp add: leaves_Node)
  qed
qed

subsection \<open>Coordinates\<close>

lemma unplaced_Node:
  "unplaced (HNode d v px py cs) = HNode d v NaN NaN (map unplaced cs)"
  by (simp add: unplaced_def [abs_def] each.simps)

lemma unplaced_each:
  assumes "\<And>n. data (f n) = data n \<and> node_value (f n) = node_value n"
  shows "unplaced (each f n) = unplaced n"
proof (induction n)
  case (HNode d v px py cs)
  have m: "map (unplaced \<circ> each f) cs = map unplaced cs"
    using HNode by simp
  obtain d' v' px' py' cs' where f: "f (HNode d v px py cs) = HNode d' v' px' py' cs'"
    by (cases "f (HNode d v px py cs)")
  with assms [of "HNode d v px py cs"] have "d' = d" "v' = v" by auto
  with f m show ?case by (simp add: each.simps unplaced_Node)
qed

lemma unplaced_placeNode: "unplaced (each (placeNode dx dy) n) = unplaced n"
  by (rule unplaced_each) (simp add: placeNode_def Let_def)

lemma unplaced_set_x: "unplaced (each (\<lambda>n. set_x (g n) n) t) = unplaced t"
  by (rule unplaced_each) (simp add: set_x_def)

lemma root_updateCoordinates:
  assumes "\<forall>t. unplaced (cluster height width t) = unplaced t"
  shows "unplaced (root (updateCoordinates cluster dx dy width height labelWidth t)) = unplaced (root t)"
  using assms
  by (simp add: updateCoordinates_def Let_def scaleXCoordinates_def flipXCoordinates_def
        unplaced_placeNode unplaced_set_x)

lemma fields_updateCoordinates:
  "flipped (updateCoordinates cluster dx dy width height labelWidth t) = flipped t"
  "title (updateCoordinates cluster dx dy width height labelWidth t) = title t"
  "leafCount (updateCoordinates cluster dx dy width height labelWidth t) = leafCount t"
  "cutoff (updateCoordinates cluster dx dy width height labelWidth t) = cutoff t"
  "dendrogram.more (updateCoordinates cluster dx dy width height labelWidth t) = dendrogram.more t"
  by (simp_all add: updateCoordinates_def Let_def scaleXCoordinates_def flipXCoordinates_def)

lemma updateCoordinates_cong:
  assumes "cluster height width (root t) = cluster height width (root t')"
    and "flipped t = flipped t'" and "title t = title t'" and "leafCount t = leafCount t'"
    and "cutoff t = cutoff t'" and "dendrogram.more t = dendrogram.more t'"
  shows "updateCoordinates cluster dx dy width height labelWidth t
       = updateCoordinates cluster dx dy width height labelWidth t'"
  using assms
  by (intro dendrogram.equality)
     (simp_all add: updateCoordinates_def Let_def scaleXCoordinates_def flipXCoordinates_def)

subsection \<open>Distances\<close>

lemma setDistanceNode_keeps:
  "setDistanceNode n = Inr n' \<Longrightarrow>
     distToParent (data n') = distToParent (data n) \<and> node_value n' = node_value n"
  by (cases n) (auto split: sum.splits if_splits list.splits simp: Let_def)

lemma setDistanceNode_path:
  "setDistanceNode n = Inr n' \<Longrightarrow>
     distance (data n') = foldr num_add (map toParent (tl (firstChildPath n))) (Num 0)"
proof (induction n arbitrary: n')
  case (HNode d v px py cs)
  from HNode.prems obtain cs' where tr: "traverse setDistanceNode cs = Inr cs'"
    by (auto split: sum.splits)
  show ?case
  proof (cases "v = Some 1")
    case True
    with HNode.prems tr show ?thesis by auto
  next
    case False
    with HNode.prems tr obtain c' rest' where cs': "cs' = c' # rest'"
      by (cases cs') auto
    with tr obtain c rest where cs: "cs = c # rest" and c: "setDistanceNode c = Inr c'"
      by (cases cs) (auto split: sum.splits)
    from HNode.IH [of c c'] cs c
    have "distance (data c') = foldr num_add (map toParent (tl (firstChildPath c))) (Num 0)"
      by simp
    moreover from setDistanceNode_keeps [OF c] have "toParent c' = toParent c"
      by (simp add: toParent_def)
    moreover have "tl (firstChildPath (HNode d v px py cs)) = c # tl (firstChildPath c)"
      using False cs by (cases c) simp
    moreover from HNode.prems tr False cs'
    have "n' = HNode (d\<lparr>distance := num_add (toParent c') (distance (data c'))\<rparr>) v px py cs'"
      by (simp add: Let_def toParent_def)
    ultimately show ?thesis by simp
  qed
qed

subsection \<open>Labels\<close>

lemma array_indexOf_first:
  assumes "i < length zs" and "zs ! i = v"
  obtains j where "array_indexOf zs v = int j" and "j \<le> i" and "zs ! j = v"
proof -
  let ?f = "filter (\<lambda>k. zs ! k = v) [0 ..< length zs]"
  from assms have i: "i \<in> set ?f" by simp
  then obtain j rest where f: "?f = j # rest" by (cases ?f) auto
  then have "j \<in> set ?f" by simp
  then have j: "zs ! j = v" by simp
  have "sorted ?f" by (rule sorted_wrt_filter) simp
  with f i have "j \<le> i" by auto
  moreover from f have "array_indexOf zs v = int j" by (simp add: array_indexOf_def)
  ultimately show thesis using j that by blast
qed

lemma enumerate_nth: "enumerate 0 zs = map (\<lambda>i. (i, zs ! i)) [0 ..< length zs]"
  by (rule nth_equalityI) (simp_all add: nth_enumerate_eq)

lemma removeDuplicates_alt:
  "removeDuplicates zs
     = map ((!) zs) (filter (\<lambda>i. array_indexOf zs (zs ! i) = int i) [0 ..< length zs])"
  by (simp add: removeDuplicates_def enumerate_nth filter_map comp_def)

lemma set_removeDuplicates: "set (removeDuplicates zs) = set zs"
proof (rule set_eqI, rule iffI)
  fix v assume "v \<in> set (removeDuplicates zs)"
  then show "v \<in> set zs" unfolding removeDuplicates_alt by auto
next
  fix v assume "v \<in> set zs"
  then obtain i where i: "i < length zs" "zs ! i = v" by (auto simp: in_set_conv_nth)
  then obtain j where j: "array_indexOf zs v = int j" "j \<le> i" "zs ! j = v"
    by (rule array_indexOf_first)
  with i have "j \<in> set (filter (\<lambda>i. array_indexOf zs (zs ! i) = int i) [0 ..< length zs])"
    by simp
  then have "zs ! j \<in> set (removeDuplicates zs)"
    unfolding removeDuplicates_alt set_map by (rule imageI)
  with j show "v \<in> set (removeDuplicates zs)" by simp
qed

lemma distinct_removeDuplicates: "distinct (removeDuplicates zs)"
proof -
  let ?is = "filter (\<lambda>i. array_indexOf zs (zs ! i) = int i) [0 ..< length zs]"
  have "inj_on ((!) zs) (set ?is)"
  proof (rule inj_onI)
    fix i j assume "i \<in> set ?is" "j \<in> set ?is" "zs ! i = zs ! j"
    then have "int i = array_indexOf zs (zs ! i)" "int j = array_indexOf zs (zs ! i)" by simp_all
    then show "i = j" by simp
  qed
  then show ?thesis unfolding removeDuplicates_alt by (simp add: distinct_map)
qed

lemma sorted_removeDuplicates:
  fixes zs :: "('a :: linorder) list"
  assumes "sorted zs"
  shows "sorted (removeDuplicates zs)"
proof -
  let ?is = "filter (\<lambda>i. array_indexOf zs (zs ! i) = int i) [0 ..< length zs]"
  have "sorted_wrt (\<lambda>i j. i \<le> j \<and> j < length zs) ?is"
    by (rule sorted_wrt_filter) (simp add: sorted_wrt_iff_nth_less)
  then have "sorted_wrt (\<lambda>i j. zs ! i \<le> zs ! j) ?is"
    by (rule sorted_wrt_mono_rel [rotated]) (use assms in \<open>auto simp: sorted_iff_nth_mono\<close>)
  then show ?thesis unfolding removeDuplicates_alt by (simp add: sorted_map)
qed

lemma removeDuplicates_sorted:
  fixes ys :: "('a :: linorder) list"
  assumes "sorted ys"
  shows "removeDuplicates ys = sorted_list_of_set (set ys)"
  by (rule sorted_distinct_set_unique)
     (simp_all add: sorted_removeDuplicates assms distinct_removeDuplicates set_removeDuplicates)

lemma array_indexOf_map:
  assumes "inj f"
  shows "array_indexOf (map f ys) (f v) = array_indexOf ys v"
proof -
  have "filter (\<lambda>i. map f ys ! i = f v) [0 ..< length ys] = filter (\<lambda>i. ys ! i = v) [0 ..< length ys]"
    by (rule filter_cong) (use assms in \<open>auto dest: injD\<close>)
  then show ?thesis by (simp add: array_indexOf_def)
qed

lemma removeDuplicates_map:
  assumes "inj f"
  shows "removeDuplicates (map f ys) = map f (removeDuplicates ys)"
proof -
  have "filter (\<lambda>i. array_indexOf (map f ys) (map f ys ! i) = int i) [0 ..< length ys]
      = filter (\<lambda>i. array_indexOf ys (ys ! i) = int i) [0 ..< length ys]"
    by (rule filter_cong) (simp_all add: array_indexOf_map [OF assms])
  moreover have "map ((!) (map f ys)) is = map f (map ((!) ys) is)" if "set is \<subseteq> {0 ..< length ys}" for "is"
    using that by (induction "is") auto
  ultimately show ?thesis
    unfolding removeDuplicates_alt by auto
qed

lemma childNamesLoop_keep:
  "\<forall>c \<in> set cs. label (data c) \<noteq> None \<Longrightarrow>
     childNamesLoop True separator cs acc = Inr (acc @ map Some (tokens True separator cs))"
  by (induction cs arbitrary: acc) (auto simp: tokens_def)

lemma childNamesLoop_split:
  "\<forall>c \<in> set cs. label (data c) \<noteq> None \<Longrightarrow>
     childNamesLoop False separator cs acc = Inr (acc @ map Some (tokens False separator cs))"
  by (induction cs arbitrary: acc) (auto simp: tokens_def)

lemma childNamesLoop_labelled:
  assumes "\<forall>c \<in> set cs. label (data c) \<noteq> None"
  shows "childNamesLoop keepDuplicates separator cs acc
           = Inr (acc @ map Some (tokens keepDuplicates separator cs))"
  using assms by (cases keepDuplicates) (simp_all add: childNamesLoop_keep childNamesLoop_split)

lemma array_sort_Some: "array_sort (map Some xs) = map Some (sort xs)"
proof -
  have "List.map_filter (\<lambda>v. v) (map Some xs) = xs"
    by (induction xs) simp_all
  moreover have "filter (\<lambda>v. v = None) (map Some xs) = []"
    by (induction xs) simp_all
  ultimately show ?thesis by (simp add: array_sort_def)
qed

lemma join_shift: "join ((a @ sep @ y) # ys) sep = a @ sep @ join (y # ys) sep"
  by (cases ys) simp_all

lemma foldl_concat_join:
  "foldl (\<lambda>lab nm. Some (to_str lab @ sep @ to_str nm)) (Some a) (map Some ys)
     = Some (join (a # ys) sep)"
proof (induction ys arbitrary: a)
  case Nil
  then show ?case by simp
next
  case (Cons y ys)
  have "foldl (\<lambda>lab nm. Some (to_str lab @ sep @ to_str nm)) (Some a) (map Some (y # ys))
      = foldl (\<lambda>lab nm. Some (to_str lab @ sep @ to_str nm)) (Some (a @ sep @ y)) (map Some ys)"
    by (simp add: to_str_def)
  also have "\<dots> = Some (join ((a @ sep @ y) # ys) sep)" by (rule Cons.IH)
  finally show ?case by (simp add: join_shift)
qed

lemma concatLabel_Some:
  "ys \<noteq> [] \<Longrightarrow> concatLabel (map Some ys) sep = Some (join ys sep)"
  by (cases ys) (simp_all add: concatLabel_def js_nth_def foldl_concat_join del: join.simps)

lemma tokens_ne:
  assumes "cs \<noteq> []" and "\<forall>c \<in> set cs. label (data c) \<noteq> None" and "separator \<noteq> []"
  shows "tokens keepDuplicates separator cs \<noteq> []"
proof -
  from assms(1,2) obtain c cs' nm where "cs = c # cs'" "label (data c) = Some nm"
    by (cases cs) auto
  then show ?thesis
    using split_ne [OF assms(3), of nm] by (auto simp: tokens_def)
qed

lemma nodeLabel_labelled:
  assumes "cs \<noteq> []" and "\<forall>c \<in> set cs. label (data c) \<noteq> None" and "separator \<noteq> []"
  shows "nodeLabel keepStructure keepDuplicates separator cs
           = Inr (Some (expectedLabel keepStructure keepDuplicates separator cs))"
proof -
  let ?toks = "tokens keepDuplicates separator cs"
  have ne: "?toks \<noteq> []" using assms by (rule tokens_ne)
  have loop: "childNamesLoop keepDuplicates separator cs [] = Inr (map Some ?toks)"
    using childNamesLoop_labelled [OF assms(2), of keepDuplicates separator "[]"] by simp
  show ?thesis
  proof (cases keepDuplicates)
    case True
    from ne have "sort ?toks \<noteq> []"
      by (metis length_0_conv length_sort)
    then have "concatLabel (map Some (sort ?toks)) separator = Some (join (sort ?toks) separator)"
      by (rule concatLabel_Some)
    with True assms(1) loop show ?thesis
      by (simp add: nodeLabel_def array_sort_Some expectedLabel_def Let_def to_str_def)
  next
    case False
    have "removeDuplicates (map Some (sort ?toks)) = map Some (sorted_list_of_set (set ?toks))"
      by (simp add: removeDuplicates_map removeDuplicates_sorted)
    moreover from ne have "sorted_list_of_set (set ?toks) \<noteq> []"
      by (simp add: sorted_list_of_set_eq_Nil_iff)
    then have "concatLabel (map Some (sorted_list_of_set (set ?toks))) separator
             = Some (join (sorted_list_of_set (set ?toks)) separator)"
      by (rule concatLabel_Some)
    ultimately show ?thesis
      using False assms(1) loop
      by (simp add: nodeLabel_def array_sort_Some expectedLabel_def Let_def to_str_def)
  qed
qed

lemma setLabelsNode_spec:
  assumes "setLabelsNode keepStructure keepDuplicates separator self_cutoff n = Inr n'"
    and "separator \<noteq> []"
    and "m \<in> set (eachBefore n')" and "node_value m \<noteq> Some 1"
  shows "(num_gt (distance (data m)) self_cutoff \<longrightarrow> label (data m) = None) \<and>
         (\<not> num_gt (distance (data m)) self_cutoff \<longrightarrow>
            (\<forall>c \<in> set (children m). label (data c) \<noteq> None) \<longrightarrow>
            label (data m) = Some (expectedLabel keepStructure keepDuplicates separator (children m)))"
  using assms(1,3)
proof (induction n arbitrary: n')
  case (HNode d v px py cs)
  let ?f = "setLabelsNode keepStructure keepDuplicates separator self_cutoff"
  from HNode.prems(1) obtain cs' where tr: "traverse ?f cs = Inr cs'"
    by (auto split: sum.splits)
  then have all2: "list_all2 (\<lambda>x y. ?f x = Inr y) cs cs'" by (rule traverse_Inr)
  from HNode.prems(1) tr obtain d' where n': "n' = HNode d' v px py cs'" and
    dist: "distance d' = distance d"
    by (auto split: if_splits sum.splits)
  show ?case
  proof (cases "m = n'")
    case True
    with assms(4) n' have v: "v \<noteq> Some 1" by simp
    show ?thesis
    proof (cases "num_gt (distance d) self_cutoff")
      case far: True
      with HNode.prems(1) tr v n' have "label d' = None" by auto
      with True n' far dist show ?thesis by simp
    next
      case near: False
      show ?thesis
      proof (intro conjI impI)
        assume "num_gt (distance (data m)) self_cutoff"
        with True n' dist near show "label (data m) = None" by simp
      next
        assume lab: "\<forall>c \<in> set (children m). label (data c) \<noteq> None"
        from HNode.prems(1) tr v near have "cs' \<noteq> []"
          by (auto simp: nodeLabel_def split: if_splits sum.splits)
        with lab True n' assms(2)
        have "nodeLabel keepStructure keepDuplicates separator cs'
                = Inr (Some (expectedLabel keepStructure keepDuplicates separator cs'))"
          by (intro nodeLabel_labelled) simp_all
        with HNode.prems(1) tr v near n' have "label d' = Some (expectedLabel keepStructure keepDuplicates separator cs')"
          by auto
        with True n' show "label (data m) = Some (expectedLabel keepStructure keepDuplicates separator (children m))"
          by simp
      qed
    qed
  next
    case False
    with HNode.prems(2) n' obtain c' where c': "c' \<in> set cs'" "m \<in> set (eachBefore c')"
      by auto
    with all2 obtain c where "c \<in> set cs" "?f c = Inr c'"
      unfolding list_all2_conv_all_nth in_set_conv_nth by metis
    with HNode.IH c' show ?thesis by blast
  qed
qed

subsection \<open>The parser\<close>

lemma count_absent: "c \<notin> set s \<Longrightarrow> count s [c] k = 0"
  by (auto simp: count_def charAt_def filter_empty_conv)

lemma split_go_absent:
  "c \<notin> set s \<Longrightarrow> split_go [c] acc s = [rev acc @ s]"
  by (induction s arbitrary: acc) auto

lemma string_of_nat_digit: "n < 10 \<Longrightarrow> string_of_nat n = [char_of (48 + n)]"
  by (simp add: string_of_nat.simps)

lemma char_of_48: "char_of (48 :: nat) = CHR ''0''"
  by code_simp

lemma rsplit_absent: "c \<notin> set s \<Longrightarrow> rsplit s [c] (Suc 0) = [[], s]"
  by (simp add: rsplit_def split_def split_go_absent)

lemma splitIntoChildren_single:
  "CHR '','' \<notin> set p \<Longrightarrow> p \<noteq> [] \<Longrightarrow> splitIntoChildren p = [p]"
  by (simp add: splitIntoChildren_def count_absent)

lemma parse_children:
  "\<exists>cs. parsePhylogramTree text ident = Obj empty_data (Some cs) \<and>
        length cs = length (splitIntoChildren text)"
  by (subst parsePhylogramTree.simps) simp

subsection \<open>Identifiers\<close>

lemma enumerate_map_enumerate:
  "enumerate 0 (map f (enumerate 0 xs)) = map (\<lambda>k. (k, f (k, xs ! k))) [0 ..< length xs]"
  by (rule nth_equalityI) (simp_all add: nth_enumerate_eq)

lemma ids_by_position_parse: "ids_by_position ident (parsePhylogramTree info ident)"
proof (induction info ident rule: parsePhylogramTree.induct)
  case (1 dendrogram ident)
  let ?pieces = "splitIntoChildren dendrogram"
  have "node_id (obj_fields n) = Some (ident @ string_of_nat k) \<and>
        ids_by_position (ident @ string_of_nat k) n"
    if k: "k < length ?pieces" and
       n: "n = (let txt = rsplit (?pieces ! k) '':'' 1;
                c = count (txt ! 0) '':'' 1
            in if c = 0
               then Obj (empty_data\<lparr>name := Some (substring (txt ! 0) 1 (int (length (txt ! 0)) - 1)),
                                   node_id := Some (ident @ string_of_nat k),
                                   distToParent := js_nth txt 1\<rparr>) None
               else (let child = substring (txt ! 0) 1 (int (length (txt ! 0)) - 1);
                         obj = parsePhylogramTree child (ident @ string_of_nat k)
                     in Obj ((obj_fields obj)\<lparr>distToParent := js_nth txt 1,
                                         node_id := Some (ident @ string_of_nat k)\<rparr>)
                        (obj_children obj)))"
    for k n
  proof (cases "count (rsplit (?pieces ! k) '':'' 1 ! 0) '':'' 1 = 0")
    case True
    with n show ?thesis by (simp add: Let_def)
  next
    case False
    let ?child = "substring (rsplit (?pieces ! k) '':'' 1 ! 0) 1
                    (int (length (rsplit (?pieces ! k) '':'' 1 ! 0)) - 1)"
    from k have "(k, ?pieces ! k) \<in> set (enumerate 0 ?pieces)"
      by (simp add: in_set_enumerate_eq)
    from "1.IH" [OF this refl refl refl False refl]
    have ih: "ids_by_position (ident @ string_of_nat k)
            (parsePhylogramTree ?child (ident @ string_of_nat k))" .
    obtain g cs where obj: "parsePhylogramTree ?child (ident @ string_of_nat k) = Obj g cs"
      by (cases "parsePhylogramTree ?child (ident @ string_of_nat k)")
    with ih have "ids_by_position (ident @ string_of_nat k) (Obj g cs)" by simp
    then have "ids_by_position (ident @ string_of_nat k) (Obj f' cs)" for f'
      by (cases cs) simp_all
    with obj n False show ?thesis by (simp add: Let_def)
  qed
  then show ?case
    by (subst parsePhylogramTree.simps)
       (simp add: enumerate_map_enumerate list_all_iff Let_def del: One_nat_def)
qed

lemma string_of_nat_ne: "string_of_nat k \<noteq> []"
  by (subst string_of_nat.simps) simp

lemma digit_inj:
  assumes "i < 10" "j < 10" "string_of_nat i @ r = string_of_nat j @ r'"
  shows "i = j"
proof -
  from assms have "char_of (48 + i) = (char_of (48 + j) :: char)"
    by (simp add: string_of_nat_digit)
  then have "(48 + i) mod 256 = (48 + j) mod 256"
    by (simp add: char_of_eq_iff take_bit_eq_mod)
  with assms(1,2) show ?thesis
    by simp
qed

lemma ids_by_position_nth:
  assumes "ids_by_position q (Obj f (Some cs))" and "k < length cs"
  shows "node_id (obj_fields (cs ! k)) = Some (q @ string_of_nat k)"
    and "ids_by_position (q @ string_of_nat k) (cs ! k)"
proof -
  from assms(2) have "(k, cs ! k) \<in> set (enumerate 0 cs)"
    by (simp add: in_set_enumerate_eq)
  with assms(1) show "node_id (obj_fields (cs ! k)) = Some (q @ string_of_nat k)"
    and "ids_by_position (q @ string_of_nat k) (cs ! k)"
    by (auto simp: list_all_iff)
qed

lemma descendant_ids_prefix:
  "ids_by_position q c \<Longrightarrow> s \<in> set (descendant_ids c) \<Longrightarrow> \<exists>r. s = Some (q @ r) \<and> r \<noteq> []"
proof (induction c arbitrary: q s rule: descendant_ids.induct)
  case (1 f)
  then show ?case by simp
next
  case (2 f cs)
  from "2.prems"(2) obtain c where c: "c \<in> set cs" "s = node_id (obj_fields c) \<or> s \<in> set (descendant_ids c)"
    by auto
  then obtain k where k: "k < length cs" "c = cs ! k" by (auto simp: in_set_conv_nth)
  note nth = ids_by_position_nth [OF "2.prems"(1) k(1)]
  from c(2) show ?case
  proof
    assume "s = node_id (obj_fields c)"
    with nth(1) k string_of_nat_ne show ?thesis by auto
  next
    assume "s \<in> set (descendant_ids c)"
    from "2.IH" [OF c(1) _ this, of "q @ string_of_nat k"] nth(2) k
    obtain r where "s = Some ((q @ string_of_nat k) @ r)" by auto
    then have "s = Some (q @ (string_of_nat k @ r))" by simp
    with string_of_nat_ne show ?thesis by blast
  qed
qed

lemma block_form:
  assumes "ids_by_position q (Obj f (Some cs))" and "k < length cs"
    and "s \<in> set (node_id (obj_fields (cs ! k)) # descendant_ids (cs ! k))"
  shows "\<exists>r. s = Some (q @ string_of_nat k @ r)"
proof -
  note nth = ids_by_position_nth [OF assms(1,2)]
  from assms(3) consider "s = node_id (obj_fields (cs ! k))" | "s \<in> set (descendant_ids (cs ! k))"
    by auto
  then show ?thesis
  proof cases
    case 1
    with nth(1) show ?thesis by simp
  next
    case 2
    from descendant_ids_prefix [OF nth(2) 2] show ?thesis by auto
  qed
qed

lemma distinct_descendant_ids:
  "ids_by_position q c \<Longrightarrow> max_children 10 c \<Longrightarrow> distinct (descendant_ids c)"
proof (induction c arbitrary: q rule: descendant_ids.induct)
  case (1 f)
  then show ?case by simp
next
  case (2 f cs)
  let ?blk = "\<lambda>c. node_id (obj_fields c) # descendant_ids c"
  from "2.prems"(2) have len: "length cs \<le> 10" and mc: "\<forall>c \<in> set cs. max_children 10 c"
    by (simp_all add: list_all_iff)
  have form: "\<exists>r. s = Some (q @ string_of_nat k @ r)" if "k < length cs" "s \<in> set (?blk (cs ! k))" for k s
    using block_form [OF "2.prems"(1) that] .
  have disj: "set (?blk (cs ! j)) \<inter> set (?blk (cs ! k)) = {}" if "j < length cs" "k < length cs" "j \<noteq> k" for j k
  proof (rule ccontr)
    assume "set (?blk (cs ! j)) \<inter> set (?blk (cs ! k)) \<noteq> {}"
    then obtain s where "s \<in> set (?blk (cs ! j))" "s \<in> set (?blk (cs ! k))" by blast
    with form that obtain r r' where "s = Some (q @ string_of_nat j @ r)" "s = Some (q @ string_of_nat k @ r')"
      by metis
    then have "string_of_nat j @ r = string_of_nat k @ r'" by simp
    with that len have "j = k" by (intro digit_inj [of j k r r']) simp_all
    with that show False by simp
  qed
  have blk: "distinct (?blk (cs ! k))" if "k < length cs" for k
  proof -
    note nth = ids_by_position_nth [OF "2.prems"(1) that]
    from that have mem: "cs ! k \<in> set cs" by simp
    with "2.IH" [OF mem nth(2)] mc have "distinct (descendant_ids (cs ! k))" by simp
    moreover have "node_id (obj_fields (cs ! k)) \<notin> set (descendant_ids (cs ! k))"
      using descendant_ids_prefix [OF nth(2)] nth(1) by fastforce
    ultimately show ?thesis by simp
  qed
  have "distinct (concat (map ?blk cs))"
  proof (rule distinct_concat)
    show "distinct (map ?blk cs)"
      unfolding distinct_conv_nth
    proof (intro allI impI)
      fix j k assume jk: "j < length (map ?blk cs)" "k < length (map ?blk cs)" "j \<noteq> k"
      then have "set (?blk (cs ! j)) \<inter> set (?blk (cs ! k)) = {}" by (intro disj) simp_all
      then have "?blk (cs ! j) \<noteq> ?blk (cs ! k)" by auto
      with jk show "map ?blk cs ! j \<noteq> map ?blk cs ! k" by simp
    qed
  next
    fix ys assume "ys \<in> set (map ?blk cs)"
    then obtain k where "k < length cs" "ys = ?blk (cs ! k)" by (auto simp: in_set_conv_nth)
    with blk show "distinct ys" by simp
  next
    fix ys zs assume "ys \<in> set (map ?blk cs)" "zs \<in> set (map ?blk cs)" "ys \<noteq> zs"
    then have "\<exists>j < length cs. ys = ?blk (cs ! j)" "\<exists>k < length cs. zs = ?blk (cs ! k)"
      by (auto simp: in_set_conv_nth)
    then obtain j k where jk: "j < length cs" "ys = ?blk (cs ! j)" "k < length cs" "zs = ?blk (cs ! k)"
      by blast
    with \<open>ys \<noteq> zs\<close> have "j \<noteq> k" by auto
    with disj jk show "set ys \<inter> set zs = {}" by simp
  qed
  then show ?case by simp
qed

lemma parse_root_id: "node_id (obj_fields (parsePhylogramTree info ident)) = None"
  by (subst parsePhylogramTree.simps) (simp add: empty_data_def)

subsection \<open>Partners\<close>

lemma findIndex_Some:
  "findIndex p xs = Inr (Some i) \<Longrightarrow> i < length xs \<and> p (xs ! i) = Inr True"
proof (induction xs arbitrary: i)
  case Nil
  then show ?case by simp
next
  case (Cons x xs)
  show ?case
  proof (cases "p x")
    case (Inl e)
    with Cons.prems show ?thesis by simp
  next
    case (Inr b)
    show ?thesis
    proof (cases b)
      case True
      with Inr Cons.prems show ?thesis by simp
    next
      case False
      with Inr Cons.prems obtain j where "findIndex p xs = Inr (Some j)" "i = Suc j"
        by (auto split: sum.splits option.splits)
      with Cons.IH [of j] show ?thesis by simp
    qed
  qed
qed

lemma partner_internal:
  assumes "partner this ele = Inr True" and "node_value (node this) \<noteq> Some 1"
  shows "\<exists>tp ep. parent this = Some tp \<and> parent ele = Some ep \<and>
           label (data (node tp)) \<noteq> None \<and> label (data (node ep)) \<noteq> None \<and>
           node_value (node ele) \<noteq> Some 1 \<and>
           label (data (node this)) = label (data (node ele)) \<and>
           label (data (node tp)) = label (data (node ep))"
  using assms by (auto simp: partner_def split: option.splits if_splits)

lemma partner_no_fault:
  assumes "parent this \<noteq> None" and "parent ele \<noteq> None"
  shows "\<exists>b. partner this ele = Inr b"
  using assms by (auto simp: partner_def split: option.splits)

subsection \<open>Sorting\<close>

lemma runLength_le: "runLength cmp desc prev rest \<le> length rest"
  by (induction rest arbitrary: prev) (auto simp: Let_def)

lemma runLength_successively:
  "successively (\<lambda>p c. if desc then cmp c p < 0 else cmp c p \<ge> 0)
     (prev # take (runLength cmp desc prev rest) rest)"
  by (induction rest arbitrary: prev) (auto simp: Let_def)

lemma sorted_wrt_successively_on:
  assumes trans: "\<And>a b c. a \<in> S \<Longrightarrow> b \<in> S \<Longrightarrow> c \<in> S \<Longrightarrow> cmp a b \<le> 0 \<Longrightarrow> cmp b c \<le> 0 \<Longrightarrow> cmp a c \<le> (0 :: int)"
  shows "set xs \<subseteq> S \<Longrightarrow> successively (\<lambda>a b. cmp a b \<le> 0) xs \<Longrightarrow> sorted_wrt (\<lambda>a b. cmp a b \<le> 0) xs"
proof (induction xs)
  case Nil
  show ?case by simp
next
  case (Cons x xs)
  show ?case
  proof (cases xs)
    case Nil
    then show ?thesis by simp
  next
    case (Cons y ys)
    with Cons.prems have xy: "cmp x y \<le> 0" and s: "successively (\<lambda>a b. cmp a b \<le> 0) xs"
      by simp_all
    from Cons.prems(1) have sub: "set xs \<subseteq> S" and x: "x \<in> S" by simp_all
    from Cons.IH [OF sub s] have ih: "sorted_wrt (\<lambda>a b. cmp a b \<le> 0) xs" .
    have "cmp x z \<le> 0" if "z \<in> set xs" for z
    proof (cases "z = y")
      case True
      with xy show ?thesis by simp
    next
      case False
      with that Cons have "z \<in> set ys" by simp
      with ih Cons have "cmp y z \<le> 0" by simp
      moreover from sub Cons that have "y \<in> S" "z \<in> S" by auto
      ultimately show ?thesis using xy x by (auto intro: trans [of x y z])
    qed
    with ih show ?thesis by simp
  qed
qed

lemma sorted_countAndMakeRun:
  assumes sym: "\<And>a b. a \<in> S \<Longrightarrow> b \<in> S \<Longrightarrow> 0 \<le> cmp a b \<Longrightarrow> cmp b a \<le> 0"
    and trans: "\<And>a b c. a \<in> S \<Longrightarrow> b \<in> S \<Longrightarrow> c \<in> S \<Longrightarrow> cmp a b \<le> 0 \<Longrightarrow> cmp b c \<le> 0 \<Longrightarrow> cmp a c \<le> (0 :: int)"
    and sub: "set xs \<subseteq> S"
    and run: "countAndMakeRun cmp xs = (w, n)"
  shows "sorted_wrt (\<lambda>a b. cmp a b \<le> 0) (take n w)"
proof (cases xs)
  case Nil
  with run show ?thesis by (simp add: countAndMakeRun_def)
next
  case (Cons h tl)
  show ?thesis
  proof (cases tl)
    case Nil
    with Cons run show ?thesis by (auto simp: countAndMakeRun_def)
  next
    case (Cons l rest)
    let ?desc = "cmp l h < 0"
    let ?k = "runLength cmp ?desc l rest"
    let ?run = "h # l # take ?k rest"
    from \<open>xs = h # tl\<close> Cons have xs: "xs = h # l # rest" by simp
    have n: "n = 2 + ?k" using run xs by (auto simp: countAndMakeRun_def Let_def)
    have tk: "take n xs = ?run" using xs n by simp
    have len: "length ?run = n" using n runLength_le [of cmp ?desc l rest] by simp
    have inS: "set ?run \<subseteq> S" using sub xs by (auto dest: in_set_takeD)
    have succ: "successively (\<lambda>p c. if ?desc then cmp c p < 0 else cmp c p \<ge> 0) ?run"
      using runLength_successively [of ?desc cmp l rest] by simp
    show ?thesis
    proof (cases ?desc)
      case True
      with run xs n have w: "w = rev (take n xs) @ drop n xs"
        by (auto simp: countAndMakeRun_def Let_def)
      from tk len have "length (rev (take n xs)) = n" by simp
      then have "take n w = rev (take n xs)"
        unfolding w by (metis append_eq_conv_conj)
      with tk have tw: "take n w = rev ?run" by simp
      have "successively (\<lambda>p c. cmp c p \<le> 0) ?run"
      proof (rule successively_mono [OF succ])
        fix p c
        assume "if ?desc then cmp c p < 0 else 0 \<le> cmp c p"
        with True show "cmp c p \<le> 0" by simp
      qed
      then have r2: "successively (\<lambda>a b. cmp a b \<le> 0) (rev ?run)"
        by (simp only: successively_rev)
      from inS have r1: "set (rev ?run) \<subseteq> S" by simp
      have "sorted_wrt (\<lambda>a b. cmp a b \<le> 0) (rev ?run)"
      proof (rule sorted_wrt_successively_on [where S = S and cmp = cmp])
        fix a b c
        assume "a \<in> S" "b \<in> S" "c \<in> S" "cmp a b \<le> 0" "cmp b c \<le> 0"
        then show "cmp a c \<le> 0" by (rule trans)
      qed (fact r1, fact r2)
      with tw show ?thesis by simp
    next
      case False
      with run xs n have w: "w = xs"
        by (auto simp: countAndMakeRun_def Let_def)
      have "successively (\<lambda>p c. cmp p c \<le> 0) ?run"
      proof (rule successively_mono [OF succ])
        fix p c
        assume "p \<in> set ?run" "c \<in> set ?run" "if ?desc then cmp c p < 0 else 0 \<le> cmp c p"
        with False inS show "cmp p c \<le> 0" by (auto intro: sym)
      qed
      then have r2: "successively (\<lambda>p c. cmp p c \<le> 0) ?run" .
      have "sorted_wrt (\<lambda>a b. cmp a b \<le> 0) ?run"
      proof (rule sorted_wrt_successively_on [where S = S and cmp = cmp])
        fix a b c
        assume "a \<in> S" "b \<in> S" "c \<in> S" "cmp a b \<le> 0" "cmp b c \<le> 0"
        then show "cmp a c \<le> 0" by (rule trans)
      qed (fact inS, fact r2)
      with w tk show ?thesis by simp
    qed
  qed
qed

lemma findInsertionPoint_spec:
  assumes sym: "\<And>a b. a \<in> S \<Longrightarrow> b \<in> S \<Longrightarrow> 0 \<le> cmp a b \<Longrightarrow> cmp b a \<le> 0"
    and trans: "\<And>a b c. a \<in> S \<Longrightarrow> b \<in> S \<Longrightarrow> c \<in> S \<Longrightarrow> cmp a b \<le> 0 \<Longrightarrow> cmp b c \<le> 0 \<Longrightarrow> cmp a c \<le> (0 :: int)"
    and sub: "set w \<subseteq> S" and piv: "pivot \<in> S"
    and sorted: "sorted_wrt (\<lambda>a b. cmp a b \<le> 0) w"
  shows "left \<le> right \<Longrightarrow> right \<le> length w \<Longrightarrow>
         \<forall>i < left. cmp (w ! i) pivot \<le> 0 \<Longrightarrow>
         \<forall>i. right \<le> i \<and> i < length w \<longrightarrow> cmp pivot (w ! i) \<le> 0 \<Longrightarrow>
         findInsertionPoint cmp pivot w left right \<le> length w \<and>
         (\<forall>i < findInsertionPoint cmp pivot w left right. cmp (w ! i) pivot \<le> 0) \<and>
         (\<forall>i. findInsertionPoint cmp pivot w left right \<le> i \<and> i < length w \<longrightarrow> cmp pivot (w ! i) \<le> 0)"
proof (induction "right - left" arbitrary: left right rule: less_induct)
  case less
  let ?mid = "left + (right - left) div 2"
  show ?case
  proof (cases "left < right")
    case False
    with less.prems have "left = right" by simp
    moreover have "findInsertionPoint cmp pivot w right right = right"
      by (subst findInsertionPoint.simps) simp
    ultimately show ?thesis using less.prems by simp
  next
    case True
    then have mid: "left \<le> ?mid" "?mid < right" by auto
    with less.prems(2) have midl: "?mid < length w" by simp
    with sub have midS: "w ! ?mid \<in> S" by auto
    show ?thesis
    proof (cases "cmp pivot (w ! ?mid) < 0")
      case lt: True
      then have pm: "cmp pivot (w ! ?mid) \<le> 0" by simp
      have hi: "\<forall>i. ?mid \<le> i \<and> i < length w \<longrightarrow> cmp pivot (w ! i) \<le> 0"
      proof (intro allI impI)
        fix i
        assume i: "?mid \<le> i \<and> i < length w"
        show "cmp pivot (w ! i) \<le> 0"
        proof (cases "i = ?mid")
          case True
          with pm show ?thesis by simp
        next
          case False
          with i have "?mid < i" "i < length w" by auto
          with sorted have mi: "cmp (w ! ?mid) (w ! i) \<le> 0"
            by (simp add: sorted_wrt_iff_nth_less)
          from i sub have "w ! i \<in> S" by auto
          with piv midS show ?thesis using pm mi by (rule trans)
        qed
      qed
      have eq: "findInsertionPoint cmp pivot w left right = findInsertionPoint cmp pivot w left ?mid"
        using True lt by (subst findInsertionPoint.simps) (simp add: Let_def)
      from mid midl have "?mid - left < right - left" "?mid \<le> length w" by simp_all
      from less.hyps [OF this(1) mid(1) this(2) less.prems(3) hi] eq
      show ?thesis by simp
    next
      case ge: False
      then have "0 \<le> cmp pivot (w ! ?mid)" by simp
      with piv midS have m: "cmp (w ! ?mid) pivot \<le> 0" by (rule sym)
      have lo: "\<forall>i < ?mid + 1. cmp (w ! i) pivot \<le> 0"
      proof (intro allI impI)
        fix i
        assume i: "i < ?mid + 1"
        show "cmp (w ! i) pivot \<le> 0"
        proof (cases "i = ?mid")
          case True
          with m show ?thesis by simp
        next
          case False
          with i have im: "i < ?mid" by simp
          with midl sorted have mi: "cmp (w ! i) (w ! ?mid) \<le> 0"
            by (simp add: sorted_wrt_iff_nth_less)
          from im midl sub have "w ! i \<in> S" by auto
          then show ?thesis using midS piv mi m by (rule trans)
        qed
      qed
      have eq: "findInsertionPoint cmp pivot w left right = findInsertionPoint cmp pivot w (?mid + 1) right"
        using True ge by (subst findInsertionPoint.simps) (simp add: Let_def)
      from mid have "right - (?mid + 1) < right - left" "?mid + 1 \<le> right" by simp_all
      from less.hyps [OF this(1) this(2) less.prems(2) lo less.prems(4)] eq
      show ?thesis by simp
    qed
  qed
qed

lemma sorted_wrt_insert_at:
  assumes "sorted_wrt P w" and "k \<le> length w"
    and "\<forall>i < k. P (w ! i) p" and "\<forall>i. k \<le> i \<and> i < length w \<longrightarrow> P p (w ! i)"
  shows "sorted_wrt P (take k w @ p # drop k w)"
proof -
  from assms(1) have "sorted_wrt P (take k w @ drop k w)" by simp
  then have a: "sorted_wrt P (take k w)" "sorted_wrt P (drop k w)"
    "\<forall>x \<in> set (take k w). \<forall>y \<in> set (drop k w). P x y"
    by (auto simp only: sorted_wrt_append)
  have b: "\<forall>x \<in> set (take k w). P x p"
    using assms(2,3) by (auto simp: in_set_conv_nth)
  have c: "\<forall>y \<in> set (drop k w). P p y"
  proof
    fix y
    assume "y \<in> set (drop k w)"
    then obtain j where "j < length w - k" "y = w ! (k + j)"
      by (auto simp: in_set_conv_nth)
    with assms(4) show "P p y" by simp
  qed
  from a b c show ?thesis by (simp add: sorted_wrt_append)
qed

lemma sorted_binaryInsertionSort:
  assumes sym: "\<And>a b. a \<in> S \<Longrightarrow> b \<in> S \<Longrightarrow> 0 \<le> cmp a b \<Longrightarrow> cmp b a \<le> 0"
    and trans: "\<And>a b c. a \<in> S \<Longrightarrow> b \<in> S \<Longrightarrow> c \<in> S \<Longrightarrow> cmp a b \<le> 0 \<Longrightarrow> cmp b c \<le> 0 \<Longrightarrow> cmp a c \<le> (0 :: int)"
  shows "set placed \<subseteq> S \<Longrightarrow> set rest \<subseteq> S \<Longrightarrow> sorted_wrt (\<lambda>a b. cmp a b \<le> 0) placed \<Longrightarrow>
         sorted_wrt (\<lambda>a b. cmp a b \<le> 0) (binaryInsertionSort cmp placed rest)"
proof (induction rest arbitrary: placed)
  case Nil
  then show ?case by simp
next
  case (Cons pivot rest)
  let ?k = "findInsertionPoint cmp pivot placed 0 (length placed)"
  from Cons.prems(2) have piv: "pivot \<in> S" and rest: "set rest \<subseteq> S" by simp_all
  have spec: "?k \<le> length placed \<and> (\<forall>i < ?k. cmp (placed ! i) pivot \<le> 0) \<and>
              (\<forall>i. ?k \<le> i \<and> i < length placed \<longrightarrow> cmp pivot (placed ! i) \<le> 0)"
    by (rule findInsertionPoint_spec [where S = S, OF sym trans Cons.prems(1) piv Cons.prems(3)]) simp_all
  then have "sorted_wrt (\<lambda>a b. cmp a b \<le> 0) (take ?k placed @ pivot # drop ?k placed)"
    using Cons.prems(3) by (intro sorted_wrt_insert_at) simp_all
  moreover have "set (take ?k placed @ pivot # drop ?k placed) \<subseteq> S"
    using Cons.prems(1) piv by (auto dest: in_set_takeD in_set_dropD)
  ultimately show ?case using Cons.IH rest by (simp add: Let_def)
qed

lemma sorted_array_sort_by:
  assumes sym: "\<And>a b. a \<in> S \<Longrightarrow> b \<in> S \<Longrightarrow> 0 \<le> cmp a b \<Longrightarrow> cmp b a \<le> 0"
    and trans: "\<And>a b c. a \<in> S \<Longrightarrow> b \<in> S \<Longrightarrow> c \<in> S \<Longrightarrow> cmp a b \<le> 0 \<Longrightarrow> cmp b c \<le> 0 \<Longrightarrow> cmp a c \<le> (0 :: int)"
    and sub: "set xs \<subseteq> S"
  shows "sorted_wrt (\<lambda>a b. cmp a b \<le> 0) (array_sort_by cmp xs)"
proof (cases "length xs < 2")
  case True
  then have "sorted_wrt (\<lambda>a b. cmp a b \<le> 0) xs"
    by (cases xs) (auto simp: less_Suc_eq numeral_2_eq_2)
  with True show ?thesis by (simp add: array_sort_by_def)
next
  case False
  obtain w n where run: "countAndMakeRun cmp xs = (w, n)"
    by (cases "countAndMakeRun cmp xs")
  have "sorted_wrt (\<lambda>a b. cmp a b \<le> 0) (take n w)"
    using sym trans sub run by (rule sorted_countAndMakeRun [where S = S])
  moreover have "set w = set xs"
    using mset_countAndMakeRun [of cmp xs] run by (auto dest: mset_eq_setD)
  with sub have "set (take n w) \<subseteq> S" "set (drop n w) \<subseteq> S"
    by (auto dest: in_set_takeD in_set_dropD)
  ultimately have "sorted_wrt (\<lambda>a b. cmp a b \<le> 0) (binaryInsertionSort cmp (take n w) (drop n w))"
    using sym trans by (intro sorted_binaryInsertionSort [where S = S])
  with False run show ?thesis by (simp add: array_sort_by_def)
qed

lemma data_sortNode [simp]: "data (sortNode cmp n) = data n"
  by (cases n) simp

lemma children_sortNode:
  "children (sortNode cmp n) = map (sortNode cmp) (array_sort_by cmp (children n))"
  by (cases n) simp

lemma eachBefore_children: "eachBefore n = n # concat (map eachBefore (children n))"
  by (cases n) simp

lemma unordered_sortNode: "unordered (sortNode cmp n) = unordered n"
proof (induction n)
  case (HNode d v px py cs)
  have "mset (map (unordered \<circ> sortNode cmp) (array_sort_by cmp cs))
          = image_mset (unordered \<circ> sortNode cmp) (mset (array_sort_by cmp cs))"
    by simp
  also have "\<dots> = image_mset (unordered \<circ> sortNode cmp) (mset cs)"
    by (simp only: mset_array_sort_by)
  also have "\<dots> = image_mset unordered (mset cs)"
    using HNode by (intro image_mset_cong) simp
  finally show ?case by simp
qed

lemma sortNode_sorted:
  assumes sym: "\<forall>a b. 0 \<le> localeCompare a b \<longrightarrow> localeCompare b a \<le> 0"
    and trans: "\<forall>a b c. localeCompare a b \<le> 0 \<and> localeCompare b c \<le> 0 \<longrightarrow> localeCompare a c \<le> (0 :: int)"
  shows "m \<in> set (eachBefore (sortNode (compareLabels localeCompare) n)) \<Longrightarrow>
         \<forall>c \<in> set (children m). label (data c) \<noteq> None \<Longrightarrow>
         sorted_wrt (\<lambda>a b. compareLabels localeCompare a b \<le> 0) (children m)"
proof (induction n)
  case (HNode d v px py cs)
  let ?cmp = "compareLabels localeCompare"
  let ?S = "{c. label (data c) \<noteq> None}"
  show ?case
  proof (cases "m = sortNode ?cmp (HNode d v px py cs)")
    case True
    then have ch: "children m = map (sortNode ?cmp) (array_sort_by ?cmp cs)" by simp
    with HNode.prems(2) have sub: "set cs \<subseteq> ?S"
      by (auto simp: set_array_sort_by)
    have s: "?cmp b a \<le> 0" if "a \<in> ?S" "b \<in> ?S" "0 \<le> ?cmp a b" for a b
    proof -
      from that(1,2) obtain la lb where l: "label (data a) = Some la" "label (data b) = Some lb"
        by auto
      with that(3) have "0 \<le> localeCompare (toLowerCase la) (toLowerCase lb)"
        by (simp add: compareLabels_def)
      with sym have "localeCompare (toLowerCase lb) (toLowerCase la) \<le> 0" by blast
      with l show ?thesis by (simp add: compareLabels_def)
    qed
    have t: "?cmp a c \<le> 0" if "a \<in> ?S" "b \<in> ?S" "c \<in> ?S" "?cmp a b \<le> 0" "?cmp b c \<le> 0" for a b c
    proof -
      from that(1,2,3) obtain la lb lc where
        l: "label (data a) = Some la" "label (data b) = Some lb" "label (data c) = Some lc"
        by auto
      with that(4,5) have "localeCompare (toLowerCase la) (toLowerCase lb) \<le> 0"
        "localeCompare (toLowerCase lb) (toLowerCase lc) \<le> 0"
        by (simp_all add: compareLabels_def)
      with trans have "localeCompare (toLowerCase la) (toLowerCase lc) \<le> 0" by blast
      with l show ?thesis by (simp add: compareLabels_def)
    qed
    have "sorted_wrt (\<lambda>a b. ?cmp a b \<le> 0) (array_sort_by ?cmp cs)"
      using s t sub by (rule sorted_array_sort_by [where S = ?S and cmp = ?cmp and xs = cs])
    moreover have "?cmp (sortNode ?cmp a) (sortNode ?cmp b) = ?cmp a b" for a b
      by (simp add: compareLabels_def)
    ultimately show ?thesis by (simp add: ch sorted_wrt_map)
  next
    case False
    with HNode.prems(1) obtain c where "c \<in> set cs" "m \<in> set (eachBefore (sortNode ?cmp c))"
      by (auto simp: set_array_sort_by)
    with HNode.IH HNode.prems(2) show ?thesis by blast
  qed
qed

subsection \<open>The examples\<close>

lemma nested_loaded:
  "onLoadDendro ''t'' ''(('A.1':0.1,('B.1':5,'C.1':5):0.2):1.9,'D.1':2);'' True True = Inr nested"
  by code_simp

lemma unset_first_loaded:
  "onLoadDendro ''t'' ''(('B.1':0.6,'C.2':0.6):0.4,'A.1':1);'' True True = Inr unset_first"
  by code_simp

lemma match_source_loaded:
  "onLoadDendro ''t'' ''('A.1':1,(('B.1':0.1,'B.2':0.1):0.5,'C.2':0.6):0.4);'' True True
     = Inr match_source"
  by code_simp

lemma match_target_loaded:
  "onLoadDendro ''t'' ''('D.1':1,('X.1':0.6,('B.1':0.1,'B.2':0.1):0.5):0.4);'' True True
     = Inr match_target"
  by code_simp

lemma unplaced_depthLayout: "unplaced (depthLayout k h w t) = unplaced t"
  by (induction t arbitrary: k) (simp add: unplaced_Node)

lemma depthLayout_unplaced: "depthLayout k h w (unplaced t) = depthLayout k h w t"
  by (induction t arbitrary: k) (simp add: unplaced_Node)

lemma depthLayout_cong:
  "unplaced t = unplaced t' \<Longrightarrow> depthLayout k h w t = depthLayout k h w t'"
  by (metis depthLayout_unplaced)

lemma codeUnitCompare_sym: "0 \<le> codeUnitCompare a b \<Longrightarrow> codeUnitCompare b a \<le> 0"
  by (auto simp: codeUnitCompare_def split: if_splits)

lemma codeUnitCompare_trans:
  "codeUnitCompare a b \<le> 0 \<Longrightarrow> codeUnitCompare b c \<le> 0 \<Longrightarrow> codeUnitCompare a c \<le> 0"
  by (auto simp: codeUnitCompare_def split: if_splits)

section \<open>Properties\<close>

text \<open>
  C1. \<open>parsePhylogramTree\<close> has no failure: it returns an object for every text and every
  identifier. The object has one child for each piece \<open>splitIntoChildren\<close> cuts the text
  into; the empty text gives the object with the empty list of children, and a
  non-empty piece without comma and without colon gives one leaf whose name is empty and
  whose \<open>distToParent\<close> is the whole piece.
\<close>

theorem parsePhylogramTree_total:
  "parsePhylogramTree [] ident = Obj empty_data (Some []) \<and>
   (\<exists>cs. parsePhylogramTree info ident = Obj empty_data (Some cs) \<and>
         length cs = length (splitIntoChildren info)) \<and>
   (CHR '','' \<notin> set p \<longrightarrow> CHR '':'' \<notin> set p \<longrightarrow> p \<noteq> [] \<longrightarrow>
      parsePhylogramTree p ident =
        Obj empty_data
          (Some [Obj (empty_data\<lparr>name := Some [], node_id := Some (ident @ ''0''),
                                 distToParent := Some p\<rparr>) None]))"
proof (intro conjI impI)
  show "parsePhylogramTree [] ident = Obj empty_data (Some [])"
    by (subst parsePhylogramTree.simps) (simp add: splitIntoChildren_def count_def)
  show "\<exists>cs. parsePhylogramTree info ident = Obj empty_data (Some cs) \<and>
         length cs = length (splitIntoChildren info)"
    by (rule parse_children)
next
  assume "CHR '','' \<notin> set p" "CHR '':'' \<notin> set p" "p \<noteq> []"
  then show "parsePhylogramTree p ident =
        Obj empty_data
          (Some [Obj (empty_data\<lparr>name := Some [], node_id := Some (ident @ ''0''),
                                 distToParent := Some p\<rparr>) None])"
    by (subst parsePhylogramTree.simps)
       (simp add: splitIntoChildren_single rsplit_absent enumerate_simps count_def
          substring_def js_nth_def string_of_nat_digit Let_def char_of_48)
qed

text \<open>The theorem on the piece \<open>'A'\<close>, which carries no distance.\<close>

theorem parsePhylogramTree_total_witness:
  "parsePhylogramTree [CHR 0x27, CHR ''A'', CHR 0x27] ''r'' =
     Obj empty_data
       (Some [Obj (empty_data\<lparr>name := Some [], node_id := Some ''r0'',
                              distToParent := Some [CHR 0x27, CHR ''A'', CHR 0x27]\<rparr>) None])"
  using parsePhylogramTree_total [of "''r''" "[]" "[CHR 0x27, CHR ''A'', CHR 0x27]"] by simp

text \<open>
  Three malformed texts: one with an opening parenthesis that is never closed, for
  which the parser returns a tree whose second leaf has an empty name and the distance
  \<open>'B\<close>; the empty text; and a name without distance.
\<close>

theorem parse_malformed_counterexample:
  "count ''('A':1,'B':2'' ''('' 0 \<noteq> count ''('A':1,'B':2'' '')'' 0 \<and>
   parsePhylogramTree ''('A':1,'B':2'' ''r'' =
     Obj empty_data
       (Some [Obj (empty_data\<lparr>distToParent := Some ''2'', node_id := Some ''r0''\<rparr>)
                (Some [Obj (empty_data\<lparr>name := Some ''A'', node_id := Some ''r00'',
                                        distToParent := Some ''1''\<rparr>) None,
                       Obj (empty_data\<lparr>name := Some [], node_id := Some ''r01'',
                                        distToParent := Some [CHR 0x27, CHR ''B'']\<rparr>) None])]) \<and>
   parsePhylogramTree [] ''r'' = Obj empty_data (Some []) \<and>
   parsePhylogramTree [CHR 0x27, CHR ''A'', CHR 0x27] ''r'' =
     Obj empty_data
       (Some [Obj (empty_data\<lparr>name := Some [], node_id := Some ''r0'',
                              distToParent := Some [CHR 0x27, CHR ''A'', CHR 0x27]\<rparr>) None])"
  by code_simp

text \<open>
  C2. After \<open>setDistance\<close> the distance of the root is the sum of the parsed
  \<open>distToParent\<close> values along the path of first children, from the root down to the
  first node of value 1.
\<close>

theorem setDistance_first_child_path:
  "setDistance t = Inr t' \<Longrightarrow>
     distance (data (root t')) = foldr num_add (map toParent (tl (firstChildPath (root t)))) (Num 0)"
  by (auto simp: setDistance_def setDistanceNode_path split: sum.splits)

text \<open>
  The theorem on the example tree, which \<open>setDistance\<close> leaves as it is: the path of first
  children goes through \<open>r0\<close> to the leaf \<open>r00\<close>, and the sum along it is 2.
\<close>

theorem setDistance_first_child_path_witness:
  "setDistance nested = Inr nested \<and>
   distance (data (root nested))
     = foldr num_add (map toParent (tl (firstChildPath (root nested)))) (Num 0) \<and>
   map (\<lambda>n. node_id (data n)) (firstChildPath (root nested)) = [None, Some ''r0'', Some ''r00''] \<and>
   distance (data (root nested)) = Num 2"
proof -
  have a: "setDistance nested = Inr nested"
    by code_simp
  have b: "map (\<lambda>n. node_id (data n)) (firstChildPath (root nested)) = [None, Some ''r0'', Some ''r00'']"
    by code_simp
  have c: "distance (data (root nested)) = Num 2"
    by code_simp
  from a b c setDistance_first_child_path [OF a] show ?thesis by simp
qed

text \<open>
  On the example tree the distance of the root is 2, the sum to the first leaf and to the
  last; the sums to the leaves \<open>r010\<close> and \<open>r011\<close> are \<open>71/10\<close>.
\<close>

theorem setDistance_every_leaf_counterexample:
  "setDistance nested = Inr nested \<and>
   distance (data (root nested)) = Num 2 \<and>
   map (\<lambda>n. node_id (data n)) (leaves (root nested))
     = [Some ''r00'', Some ''r010'', Some ''r011'', Some ''r1''] \<and>
   leafPathSums (root nested) = [Num 2, Num (71 / 10), Num (71 / 10), Num 2]"
  by code_simp

text \<open>
  C3. The label \<open>setLabels\<close> gives a node within the cutoff, on the example tree, loaded
  from \<open>(('A.1':0.1,('B.1':5,'C.1':5):0.2):1.9,'D.1':2);\<close>. The cutoff is 1; the node \<open>r0\<close> has
  distance \<open>1/10\<close> and two children, the leaf labelled \<open>A\<close> and the node \<open>r01\<close>, which lies
  beyond the cutoff and has no label. With duplicates kept the label of \<open>r0\<close> is
  \<open>_A-undefined_\<close>, where the sorted tokens of its children joined and wrapped are
  \<open>_A_\<close>; with duplicates removed the load faults. Where every child of a node is
  labelled, the label is the one described (lemma \<open>setLabelsNode_spec\<close>).
\<close>

theorem setLabels_unlabelled_child:
  "onLoadDendro ''t'' ''(('A.1':0.1,('B.1':5,'C.1':5):0.2):1.9,'D.1':2);'' True True = Inr nested \<and>
   cutoff nested = Num 1 \<and>
   node_id (data nested_outer) = Some ''r0'' \<and>
   node_value nested_outer = Some 3 \<and>
   distance (data nested_outer) = Num (1 / 10) \<and>
   map (\<lambda>c. label (data c)) (children nested_outer) = [Some ''A'', None] \<and>
   label (data nested_outer) = Some ''_A-undefined_'' \<and>
   expectedLabel True True ''-'' (children nested_outer) = ''_A_'' \<and>
   onLoadDendro ''t'' ''(('A.1':0.1,('B.1':5,'C.1':5):0.2):1.9,'D.1':2);'' True False = Inl TypeError"
  by code_simp

text \<open>
  C4. \<open>findMatchingClusters\<close> on a node of value below \<open>minChildren\<close> returns the empty
  list, without a fault. In every list of matches it returns, the source node and the
  target node of each match have a value of at least \<open>minChildren\<close>, and so has every
  node the search went through between the starting node and the source node of the
  match.
\<close>

theorem findMatchingClusters_nontrivial:
  "(value_lt (node_value (node nd)) minChildren \<longrightarrow> findMatchingClusters nd other minChildren = Inr []) \<and>
   (\<forall>matches m. findMatchingClusters nd other minChildren = Inr matches \<longrightarrow> m \<in> set matches \<longrightarrow>
      \<not> value_lt (node_value (node (sourceNode m))) minChildren \<and>
      \<not> value_lt (node_value (node (targetNode m))) minChildren \<and>
      (\<exists>between. ancestors (sourceNode m) = between @ ancestors nd \<and>
         (\<forall>a \<in> set between. \<not> value_lt (node_value a) minChildren)))"
proof (intro conjI allI impI)
  assume "value_lt (node_value (node nd)) minChildren"
  then show "findMatchingClusters nd other minChildren = Inr []"
    by (simp add: findMatchingClusters.simps)
next
  fix matches m
  assume a: "findMatchingClusters nd other minChildren = Inr matches" "m \<in> set matches"
  from findMatchingClusters_inv [OF a]
  show "\<not> value_lt (node_value (node (sourceNode m))) minChildren"
    and "\<not> value_lt (node_value (node (targetNode m))) minChildren"
    and "\<exists>between. ancestors (sourceNode m) = between @ ancestors nd \<and>
         (\<forall>a \<in> set between. \<not> value_lt (node_value a) minChildren)"
    by (auto dest: value_ge_not_lt)
qed

text \<open>
  The theorem on \<open>match_source\<close> and \<open>match_target\<close>: with \<open>minChildren\<close> 5, above the
  value 4 of the root, there is no match; with 2 the cluster of \<open>B.1\<close> and \<open>B.2\<close> is
  matched, below nodes of values 3 and 4.
\<close>

theorem findMatchingClusters_nontrivial_witness:
  "value_lt (node_value (root match_source)) 5 \<and>
   findMatchingClusters (Ref (root match_source) []) match_target 5 = Inr [] \<and>
   map (\<lambda>m. (match_label m, node_value (node (sourceNode m)), node_value (node (targetNode m)),
              map node_value (ancestors (sourceNode m))))
     (projr (findMatchingClusters (Ref (root match_source) []) match_target 2))
     = [(Some ''_B-B_'', Some 2, Some 2, [Some 3, Some 4])] \<and>
   list_all (\<lambda>m. \<not> value_lt (node_value (node (sourceNode m))) 2 \<and>
                  \<not> value_lt (node_value (node (targetNode m))) 2)
     (projr (findMatchingClusters (Ref (root match_source) []) match_target 2))"
proof -
  have a: "value_lt (node_value (node (Ref (root match_source) []))) 5"
    by code_simp
  have b: "findMatchingClusters (Ref (root match_source) []) match_target 2
             = Inr (projr (findMatchingClusters (Ref (root match_source) []) match_target 2))"
    by code_simp
  have c: "map (\<lambda>m. (match_label m, node_value (node (sourceNode m)), node_value (node (targetNode m)),
              map node_value (ancestors (sourceNode m))))
     (projr (findMatchingClusters (Ref (root match_source) []) match_target 2))
     = [(Some ''_B-B_'', Some 2, Some 2, [Some 3, Some 4])]"
    by code_simp
  from a findMatchingClusters_nontrivial [of "Ref (root match_source) []" 5 match_target]
  have d: "findMatchingClusters (Ref (root match_source) []) match_target 5 = Inr []"
    by blast
  from b findMatchingClusters_nontrivial [of "Ref (root match_source) []" 2 match_target]
  have e: "list_all (\<lambda>m. \<not> value_lt (node_value (node (sourceNode m))) 2 \<and>
                  \<not> value_lt (node_value (node (targetNode m))) 2)
     (projr (findMatchingClusters (Ref (root match_source) []) match_target 2))"
    unfolding list_all_iff by blast
  from a c d e show ?thesis by simp
qed

text \<open>
  C5. When \<open>findIndex\<close> pairs an internal node \<open>n\<close> of the source worklist with the
  target at index \<open>i\<close>, both nodes have a parent, the labels of the two parents are set
  and equal, the target is not a leaf and the labels of the two nodes are equal, set or
  not. The callback does not fault on nodes that have a parent.
\<close>

theorem internal_pairing:
  "(findIndex (partner n) targetNodes = Inr (Some i) \<longrightarrow> node_value (node n) \<noteq> Some 1 \<longrightarrow>
      i < length targetNodes \<and>
      (\<exists>np tp. parent n = Some np \<and> parent (targetNodes ! i) = Some tp \<and>
         label (data (node np)) \<noteq> None \<and> label (data (node tp)) \<noteq> None \<and>
         node_value (node (targetNodes ! i)) \<noteq> Some 1 \<and>
         label (data (node n)) = label (data (node (targetNodes ! i))) \<and>
         label (data (node np)) = label (data (node tp)))) \<and>
   (parent n \<noteq> None \<longrightarrow> parent ele \<noteq> None \<longrightarrow> (\<exists>b. partner n ele = Inr b))"
proof (intro conjI impI)
  assume a: "findIndex (partner n) targetNodes = Inr (Some i)" "node_value (node n) \<noteq> Some 1"
  from findIndex_Some [OF a(1)] show "i < length targetNodes" by simp
  from findIndex_Some [OF a(1)] have "partner n (targetNodes ! i) = Inr True" by simp
  from partner_internal [OF this a(2)]
  show "\<exists>np tp. parent n = Some np \<and> parent (targetNodes ! i) = Some tp \<and>
         label (data (node np)) \<noteq> None \<and> label (data (node tp)) \<noteq> None \<and>
         node_value (node (targetNodes ! i)) \<noteq> Some 1 \<and>
         label (data (node n)) = label (data (node (targetNodes ! i))) \<and>
         label (data (node np)) = label (data (node tp))" .
next
  assume "parent n \<noteq> None" "parent ele \<noteq> None"
  then show "\<exists>b. partner n ele = Inr b" by (rule partner_no_fault)
qed

text \<open>The theorem on the example worklist, for its node \<open>r01\<close>.\<close>

theorem internal_pairing_witness:
  "findIndex (partner (nested_worklist ! 2)) nested_worklist = Inr (Some 2) \<and>
   node_value (node (nested_worklist ! 2)) \<noteq> Some 1 \<and>
   (\<exists>np tp. parent (nested_worklist ! 2) = Some np \<and> parent (nested_worklist ! 2) = Some tp \<and>
      label (data (node np)) \<noteq> None \<and> label (data (node tp)) \<noteq> None \<and>
      label (data (node np)) = label (data (node tp))) \<and>
   parent (nested_worklist ! 2) \<noteq> None \<and> parent (nested_worklist ! 0) \<noteq> None \<and>
   (\<exists>b. partner (nested_worklist ! 2) (nested_worklist ! 0) = Inr b)"
proof -
  have a: "findIndex (partner (nested_worklist ! 2)) nested_worklist = Inr (Some 2)"
    by code_simp
  have b: "node_value (node (nested_worklist ! 2)) \<noteq> Some 1"
    by code_simp
  have c: "parent (nested_worklist ! 2) \<noteq> None" "parent (nested_worklist ! 0) \<noteq> None"
    by code_simp+
  from a b c internal_pairing [of "nested_worklist ! 2" nested_worklist 2 "nested_worklist ! 0"]
  show ?thesis by blast
qed

text \<open>
  The example tree matched with itself: \<open>r0\<close> matches \<open>r0\<close>, and the internal node \<open>r01\<close>,
  whose label is not set, is paired with its counterpart; the edge \<open>r0r01\<close> is among the
  equal branches.
\<close>

theorem internal_pairing_counterexample:
  "map (\<lambda>m. (node_id (data (node (sourceNode m))), node_id (data (node (targetNode m)))))
     (projr (findMatchingClusters (Ref (root nested) []) nested 2)) = [(Some ''r0'', Some ''r0'')] \<and>
   map_sum id equalBranches
     (initEqualBranches ''simi'' (hd (projr (findMatchingClusters (Ref (root nested) []) nested 2))))
     = Inr [[''r01r011'', ''r0r01'', ''r01r010'', ''r0r01'', ''r0r00''],
            [''r01r011'', ''r0r01'', ''r01r010'', ''r0r01'', ''r0r00'']] \<and>
   node_id (data nested_inner) = Some ''r01'' \<and>
   node_value nested_inner = Some 2 \<and>
   label (data nested_inner) = None \<and>
   findIndex (partner (nested_worklist ! 2)) nested_worklist = Inr (Some 2) \<and>
   node (nested_worklist ! 2) = nested_inner"
  by code_simp

text \<open>
  C6. The object \<open>parsePhylogramTree\<close> returns carries no identifier of its own; every
  object below it carries the identifier of its parent (the marker, for the children of
  the returned object) followed by its index among its siblings in decimal; and where
  no object has more than ten children the identifiers below the returned object are
  pairwise distinct.
\<close>

theorem parsed_ids:
  "node_id (obj_fields (parsePhylogramTree info marker)) = None \<and>
   ids_by_position marker (parsePhylogramTree info marker) \<and>
   (max_children 10 (parsePhylogramTree info marker) \<longrightarrow>
      distinct (descendant_ids (parsePhylogramTree info marker)))"
  using parse_root_id ids_by_position_parse distinct_descendant_ids by blast

text \<open>The theorem on the text \<open>'A':0.5,('B':0.3,'C':0.3):0.2\<close>.\<close>

theorem parsed_ids_witness:
  "max_children 10 (parsePhylogramTree '''A':0.5,('B':0.3,'C':0.3):0.2'' ''r'') \<and>
   node_id (obj_fields (parsePhylogramTree '''A':0.5,('B':0.3,'C':0.3):0.2'' ''r'')) = None \<and>
   ids_by_position ''r'' (parsePhylogramTree '''A':0.5,('B':0.3,'C':0.3):0.2'' ''r'') \<and>
   distinct (descendant_ids (parsePhylogramTree '''A':0.5,('B':0.3,'C':0.3):0.2'' ''r''))"
proof -
  have "max_children 10 (parsePhylogramTree '''A':0.5,('B':0.3,'C':0.3):0.2'' ''r'')"
    by code_simp
  with parsed_ids [of "'''A':0.5,('B':0.3,'C':0.3):0.2''" "''r''"] show ?thesis by blast
qed

text \<open>
  A text with eleven pieces at the top, the second with two children: the returned
  object has no identifier, and \<open>r10\<close> names both the first child of the second piece
  and the eleventh piece.
\<close>

theorem parsed_ids_counterexample:
  "node_id (obj_fields (parsePhylogramTree
      '''A':1,('B':1,'C':1):1,'D':1,'E':1,'F':1,'G':1,'H':1,'I':1,'J':1,'K':1,'L':1'' ''r'')) = None \<and>
   \<not> distinct (descendant_ids (parsePhylogramTree
      '''A':1,('B':1,'C':1):1,'D':1,'E':1,'F':1,'G':1,'H':1,'I':1,'J':1,'K':1,'L':1'' ''r''))"
proof -
  have "descendant_ids (parsePhylogramTree
      '''A':1,('B':1,'C':1):1,'D':1,'E':1,'F':1,'G':1,'H':1,'I':1,'J':1,'K':1,'L':1'' ''r'')
     = [Some ''r0'', Some ''r1'', Some ''r10'', Some ''r11'', Some ''r2'', Some ''r3'', Some ''r4'',
        Some ''r5'', Some ''r6'', Some ''r7'', Some ''r8'', Some ''r9'', Some ''r10'']"
    by code_simp
  then show ?thesis by (simp add: parse_root_id)
qed

text \<open>
  C7. \<open>sort()\<close> only reorders the children of the nodes: the hierarchy is the same once
  the order of the children is forgotten. With a locale comparison that is consistent
  (an answer that is not negative is not positive the other way round, and \<open>\<le> 0\<close> is
  transitive), the children of every node of the sorted hierarchy whose children are all
  labelled are in the order of the comparison of their lower-cased labels. When either
  label is not set the comparator answers \<open>-1\<close>, whichever of the two it is.
\<close>

theorem sort_reorders_children:
  assumes "\<forall>a b. 0 \<le> localeCompare a b \<longrightarrow> localeCompare b a \<le> 0"
    and "\<forall>a b c. localeCompare a b \<le> 0 \<and> localeCompare b c \<le> 0 \<longrightarrow> localeCompare a c \<le> (0 :: int)"
  shows "unordered (root (sort_dendrogram localeCompare t)) = unordered (root t) \<and>
         (\<forall>m \<in> set (eachBefore (root (sort_dendrogram localeCompare t))).
            (\<forall>c \<in> set (children m). label (data c) \<noteq> None) \<longrightarrow>
            sorted_wrt (\<lambda>a b. compareLabels localeCompare a b \<le> 0) (children m)) \<and>
         (\<forall>a b. label (data a) = None \<or> label (data b) = None \<longrightarrow>
                  compareLabels localeCompare a b = - 1)"
proof (intro conjI ballI allI impI)
  show "unordered (root (sort_dendrogram localeCompare t)) = unordered (root t)"
    by (simp add: sort_dendrogram_def unordered_sortNode)
next
  fix m
  assume "m \<in> set (eachBefore (root (sort_dendrogram localeCompare t)))"
    and "\<forall>c \<in> set (children m). label (data c) \<noteq> None"
  then show "sorted_wrt (\<lambda>a b. compareLabels localeCompare a b \<le> 0) (children m)"
    using sortNode_sorted [OF assms, of m "root t"] by (simp add: sort_dendrogram_def)
next
  fix a b
  assume "label (data a) = None \<or> label (data b) = None"
  then show "compareLabels localeCompare a b = - 1"
    by (auto simp: compareLabels_def split: option.splits)
qed

text \<open>
  The theorem on \<open>match_target\<close>, with the comparison by code units. The second child of
  its root has the children labelled \<open>X\<close> and \<open>_B-B_\<close>, which the sort exchanges. That
  child has no label: compared with the leaf before it the answer is \<open>-1\<close>, the two make a
  descending run, and the sort moves it to the front.
\<close>

theorem sort_reorders_children_witness:
  "unordered (root (sort_dendrogram codeUnitCompare match_target)) = unordered (root match_target) \<and>
   map (\<lambda>c. label (data c)) (children (children (root match_target) ! 1))
     = [Some ''X'', Some ''_B-B_''] \<and>
   map (\<lambda>n. node_id (data n)) (eachBefore (root (sort_dendrogram codeUnitCompare match_target)))
     = [None, Some ''r1'', Some ''r11'', Some ''r110'', Some ''r111'', Some ''r10'', Some ''r0''] \<and>
   map (\<lambda>c. label (data c))
     (children (children (root (sort_dendrogram codeUnitCompare match_target)) ! 0))
     = [Some ''_B-B_'', Some ''X''] \<and>
   sorted_wrt (\<lambda>a b. compareLabels codeUnitCompare a b \<le> 0)
     (children (children (root (sort_dendrogram codeUnitCompare match_target)) ! 0)) \<and>
   compareLabels codeUnitCompare (children (root match_target) ! 1) (children (root match_target) ! 0)
     = - 1"
proof -
  let ?m = "children (root (sort_dendrogram codeUnitCompare match_target)) ! 0"
  have a: "\<forall>a b. 0 \<le> codeUnitCompare a b \<longrightarrow> codeUnitCompare b a \<le> 0"
    using codeUnitCompare_sym by blast
  have b: "\<forall>a b c. codeUnitCompare a b \<le> 0 \<and> codeUnitCompare b c \<le> 0 \<longrightarrow> codeUnitCompare a c \<le> 0"
    using codeUnitCompare_trans by blast
  have c: "?m \<in> set (eachBefore (root (sort_dendrogram codeUnitCompare match_target)))"
    by code_simp
  have d: "\<forall>c \<in> set (children ?m). label (data c) \<noteq> None"
    by code_simp
  have e: "map (\<lambda>c. label (data c)) (children (children (root match_target) ! 1))
             = [Some ''X'', Some ''_B-B_'']"
    by code_simp
  have f: "map (\<lambda>c. label (data c)) (children ?m) = [Some ''_B-B_'', Some ''X'']"
    by code_simp
  have g: "map (\<lambda>n. node_id (data n)) (eachBefore (root (sort_dendrogram codeUnitCompare match_target)))
     = [None, Some ''r1'', Some ''r11'', Some ''r110'', Some ''r111'', Some ''r10'', Some ''r0'']"
    by code_simp
  have h: "label (data (children (root match_target) ! 1)) = None"
    by code_simp
  from c d e f g h sort_reorders_children [OF a b, of match_target] show ?thesis by blast
qed

text \<open>
  The children of the root of \<open>unset_first\<close> are the node \<open>r0\<close>, without label, and the leaf
  \<open>r1\<close> labelled \<open>A\<close>. The first comparison, of the second with the first, answers
  \<open>-1\<close>: the two make a descending run, which is reversed, and the child without label
  ends after its labelled sibling.
\<close>

theorem sort_unset_first_counterexample:
  "map (\<lambda>c. (node_id (data c), label (data c))) (children (root unset_first))
     = [(Some ''r0'', None), (Some ''r1'', Some ''A'')] \<and>
   compareLabels codeUnitCompare (children (root unset_first) ! 1) (children (root unset_first) ! 0)
     = - 1 \<and>
   map (\<lambda>c. (node_id (data c), label (data c)))
     (children (root (sort_dendrogram codeUnitCompare unset_first)))
     = [(Some ''r1'', Some ''A''), (Some ''r0'', None)]"
  by code_simp

text \<open>
  C8. Let the layout of the library write the coordinates of the nodes and nothing else,
  and let it not depend on the coordinates it finds. Then toggling the flag and
  computing the coordinates again, twice, gives back the dendrogram the first
  computation gave, with the coordinates of every node. The computation with the flag
  set gives the mirror image, by \<open>_flipXCoordinates\<close>, of the computation without.
\<close>

theorem flip_layout_round_trip:
  assumes "\<forall>t. unplaced (cluster height width t) = unplaced t"
    and "\<forall>t t'. unplaced t = unplaced t' \<longrightarrow> cluster height width t = cluster height width t'"
  shows "updateCoordinates cluster dx dy width height labelWidth
           (toggleFlipped (updateCoordinates cluster dx dy width height labelWidth
             (toggleFlipped (updateCoordinates cluster dx dy width height labelWidth t))))
         = updateCoordinates cluster dx dy width height labelWidth t \<and>
         (\<not> flipped t \<longrightarrow>
            updateCoordinates cluster dx dy width height labelWidth (toggleFlipped t)
              = flipXCoordinates labelWidth
                  (toggleFlipped (updateCoordinates cluster dx dy width height labelWidth t)))"
proof (intro conjI impI)
  let ?U = "updateCoordinates cluster dx dy width height labelWidth"
  let ?t4 = "toggleFlipped (?U (toggleFlipped (?U t)))"
  have r: "unplaced (root (?U s)) = unplaced (root s)" for s
    by (rule root_updateCoordinates) (rule assms(1))
  have "unplaced (root ?t4) = unplaced (root t)"
    by (simp add: toggleFlipped_def r)
  with assms(2) have "cluster height width (root ?t4) = cluster height width (root t)"
    by blast
  then show "?U ?t4 = ?U t"
    by (rule updateCoordinates_cong) (simp_all add: toggleFlipped_def fields_updateCoordinates)
next
  assume "\<not> flipped t"
  then show "updateCoordinates cluster dx dy width height labelWidth (toggleFlipped t)
              = flipXCoordinates labelWidth
                  (toggleFlipped (updateCoordinates cluster dx dy width height labelWidth t))"
    by (simp add: updateCoordinates_def toggleFlipped_def Let_def scaleXCoordinates_def
          flipXCoordinates_def)
qed

text \<open>The theorem on the example tree, with the layout by depth.\<close>

theorem flip_layout_round_trip_witness:
  "updateCoordinates (depthLayout 0) (Num 10) (Num 20) (Num 300) (Num 200) (Num 50)
     (toggleFlipped (updateCoordinates (depthLayout 0) (Num 10) (Num 20) (Num 300) (Num 200) (Num 50)
       (toggleFlipped (updateCoordinates (depthLayout 0) (Num 10) (Num 20) (Num 300) (Num 200) (Num 50)
          nested))))
     = updateCoordinates (depthLayout 0) (Num 10) (Num 20) (Num 300) (Num 200) (Num 50) nested \<and>
   \<not> flipped nested \<and>
   updateCoordinates (depthLayout 0) (Num 10) (Num 20) (Num 300) (Num 200) (Num 50) (toggleFlipped nested)
     = flipXCoordinates (Num 50)
         (toggleFlipped (updateCoordinates (depthLayout 0) (Num 10) (Num 20) (Num 300) (Num 200) (Num 50)
            nested))"
proof -
  have a: "\<forall>t. unplaced (depthLayout 0 (Num 200) (Num 300) t) = unplaced t"
    by (simp add: unplaced_depthLayout)
  have b: "\<forall>t t'. unplaced t = unplaced t' \<longrightarrow>
             depthLayout 0 (Num 200) (Num 300) t = depthLayout 0 (Num 200) (Num 300) t'"
    using depthLayout_cong by blast
  have c: "\<not> flipped nested"
    by code_simp
  from a b c
    flip_layout_round_trip [where cluster = "depthLayout 0" and height = "Num 200"
      and width = "Num 300" and dx = "Num 10" and dy = "Num 20" and labelWidth = "Num 50"
      and t = nested]
  show ?thesis by blast
qed
end
